theory Spec2Isabelle
  imports Complex_Main "HOL-Library.Stream"
begin

section \<open>The demo data generator \<open>setup_demo_data.py\<close>\<close>

text \<open>
  The script generates four row lists (customers, products, orders, events) from the
  module-global pseudo-random generator and loads them into a database file. The
  embedding follows the script function by function. What the script takes from
  libraries is modelled as follows.

  \<^item> The state of the global generator is the stream of raw draws still to come; each
    call of a function of module \<open>random\<close> consumes the head of the stream and maps it
    into the range that the library documents for that function. Theorems quantify
    over all streams, hence over every outcome the library may produce.
  \<^item> Floating-point numbers are exact rationals: \<open>0.30\<close> is \<open>3/10\<close>, and
    \<open>round(x, 2)\<close> rounds to the nearest hundredth, ties to even.
  \<^item> A \<open>datetime\<close> is its number of seconds since midnight before day 1 of the
    proleptic Gregorian calendar (\<open>date.toordinal\<close> times 86400 plus the time of
    day); a \<open>timedelta\<close> is a number of seconds. Rows keep the instant where the
    script stores its \<open>strftime\<close> rendering.
  \<^item> A raised exception is the left injection of a sum; the recursion limit of the
    interpreter is an explicit budget of nested calls.
\<close>

subsection \<open>Exceptions\<close>

datatype error =
    ZeroDivisionError
  | IndexError
  | KeyError
  | ValueError
  | RecursionError
  | OSError
  | DatabaseError

subsection \<open>Module \<open>random\<close>\<close>

type_synonym rng = "nat stream"

text \<open>\<open>random.random()\<close>: a multiple of \<open>2^-53\<close> in \<open>[0, 1)\<close>.\<close>

definition random_random :: "rng \<Rightarrow> rat \<times> rng" where
  "random_random g = (of_nat (shd g mod 2 ^ 53) / 2 ^ 53, stl g)"

text \<open>\<open>random.randint(a, b)\<close>: an integer in \<open>[a, b]\<close>; \<open>ValueError\<close> on an empty range.\<close>

definition random_randint :: "int \<Rightarrow> int \<Rightarrow> rng \<Rightarrow> error + int \<times> rng" where
  "random_randint a b g =
     (if b < a then Inl ValueError
      else Inr (a + int (shd g mod nat (b - a + 1)), stl g))"

text \<open>\<open>random.choice(seq)\<close>: an element of \<open>seq\<close>; \<open>IndexError\<close> on an empty sequence.\<close>

definition random_choice :: "'a list \<Rightarrow> rng \<Rightarrow> error + 'a \<times> rng" where
  "random_choice seq g =
     (if seq = [] then Inl IndexError
      else Inr (seq ! (shd g mod length seq), stl g))"

text \<open>\<open>random.uniform(a, b)\<close> is \<open>a + (b - a) * random()\<close>.\<close>

definition random_uniform :: "rat \<Rightarrow> rat \<Rightarrow> rng \<Rightarrow> rat \<times> rng" where
  "random_uniform a b g = (case random_random g of (u, g') \<Rightarrow> (a + (b - a) * u, g'))"

text \<open>
  \<open>random.choices(population, weights=weights, k=1)[0]\<close>: the library accumulates the
  weights, scales one \<open>random()\<close> draw by their total and bisects (to the right, the
  index capped at \<open>n - 1\<close>).
\<close>

fun accumulate :: "rat \<Rightarrow> rat list \<Rightarrow> rat list" where
  "accumulate acc [] = []"
| "accumulate acc (w # ws) = (acc + w) # accumulate (acc + w) ws"

definition random_choices :: "'a list \<Rightarrow> rat list \<Rightarrow> rng \<Rightarrow> error + 'a \<times> rng" where
  "random_choices population weights g =
     (let cum_weights = accumulate 0 weights in
      if length cum_weights \<noteq> length population then Inl ValueError
      else if cum_weights = [] then Inl IndexError
      else if last cum_weights \<le> 0 then Inl ValueError
      else (case random_random g of (u, g') \<Rightarrow>
              Inr (population !
                     min (length (filter (\<lambda>c. c \<le> u * last cum_weights) cum_weights))
                         (length population - 1),
                   g')))"

text \<open>
  \<open>int(random.paretovariate(alpha))\<close>: the variate is \<open>(1 - random()) ** (-1 / alpha)\<close>,
  at least \<open>1.0\<close>, so its integer part is a positive integer. The model lets it be any
  positive integer, whatever \<open>alpha\<close> is.
\<close>

definition random_paretovariate_int :: "rat \<Rightarrow> rng \<Rightarrow> int \<times> rng" where
  "random_paretovariate_int alpha g = (1 + int (shd g), stl g)"

subsection \<open>Built-ins: \<open>round\<close>, indexing, string formatting\<close>

definition round_half_even :: "rat \<Rightarrow> int" where
  "round_half_even x =
     (let f = \<lfloor>x\<rfloor>; d = x - of_int f in
      if d < 1 / 2 then f
      else if 1 / 2 < d then f + 1
      else if even f then f else f + 1)"

text \<open>\<open>round(x, 2)\<close>.\<close>

definition round2 :: "rat \<Rightarrow> rat" where
  "round2 x = of_int (round_half_even (x * 100)) / 100"

text \<open>\<open>xs[i]\<close>: a negative index counts from the end; out of range raises.\<close>

definition py_index :: "'a list \<Rightarrow> int \<Rightarrow> error + 'a" where
  "py_index xs i =
     (if 0 \<le> i \<and> i < int (length xs) then Inr (xs ! nat i)
      else if i < 0 \<and> - int (length xs) \<le> i then Inr (xs ! nat (int (length xs) + i))
      else Inl IndexError)"

fun str_nat :: "nat \<Rightarrow> string" where
  "str_nat n =
     (if n < 10 then [char_of (48 + n)]
      else str_nat (n div 10) @ [char_of (48 + n mod 10)])"

text \<open>\<open>str(i)\<close> and the format \<open>{i:06d}\<close>.\<close>

definition str_int :: "int \<Rightarrow> string" where
  "str_int i = (if i < 0 then CHR ''-'' # str_nat (nat (- i)) else str_nat (nat i))"

definition zero_pad :: "nat \<Rightarrow> string \<Rightarrow> string" where
  "zero_pad w s = replicate (w - length s) CHR ''0'' @ s"

definition format_06d :: "int \<Rightarrow> string" where
  "format_06d i =
     (if i < 0 then CHR ''-'' # zero_pad 5 (str_nat (nat (- i)))
      else zero_pad 6 (str_nat (nat i)))"

definition lower_char :: "char \<Rightarrow> char" where
  "lower_char c =
     (let n = (of_char c :: nat) in if 65 \<le> n \<and> n \<le> 90 then char_of (n + 32) else c)"

definition lower :: "string \<Rightarrow> string" where
  "lower s = map lower_char s"

definition rstrip :: "char \<Rightarrow> string \<Rightarrow> string" where
  "rstrip c s = rev (dropWhile (\<lambda>x. x = c) (rev s))"

subsection \<open>Module \<open>datetime\<close>\<close>

type_synonym datetime = int
type_synonym timedelta = int

definition is_leap :: "int \<Rightarrow> bool" where
  "is_leap y = (y mod 4 = 0 \<and> (y mod 100 \<noteq> 0 \<or> y mod 400 = 0))"

definition days_before_year :: "int \<Rightarrow> int" where
  "days_before_year year =
     (let y = year - 1 in y * 365 + y div 4 - y div 100 + y div 400)"

definition days_in_month :: "int \<Rightarrow> int \<Rightarrow> int" where
  "days_in_month y m =
     (if m = 2 then (if is_leap y then 29 else 28)
      else if m \<in> {4, 6, 9, 11} then 30 else 31)"

definition days_before_month :: "int \<Rightarrow> int \<Rightarrow> int" where
  "days_before_month y m = sum_list (map (days_in_month y) [1..m - 1])"

text \<open>\<open>datetime(year, month, day)\<close>, at midnight.\<close>

definition mk_datetime :: "int \<Rightarrow> int \<Rightarrow> int \<Rightarrow> datetime" where
  "mk_datetime y m d = (days_before_year y + days_before_month y m + d) * 86400"

definition toordinal :: "datetime \<Rightarrow> int" where
  "toordinal t = t div 86400"

text \<open>The year of an ordinal, by the 400, 100, 4 and 1 year cycles.\<close>

definition year_of_ordinal :: "int \<Rightarrow> int" where
  "year_of_ordinal ord =
     (let n = ord - 1;
          n400 = n div 146097; r400 = n mod 146097;
          n100 = r400 div 36524; r100 = r400 mod 36524;
          n4 = r100 div 1461; r4 = r100 mod 1461;
          n1 = r4 div 365;
          year = n400 * 400 + 1 + n100 * 100 + n4 * 4 + n1
      in if n1 = 4 \<or> n100 = 4 then year - 1 else year)"

text \<open>\<open>d.month\<close>.\<close>

definition month_of :: "datetime \<Rightarrow> int" where
  "month_of t =
     (let ord = toordinal t; y = year_of_ordinal ord;
          n = ord - days_before_year y
      in int (length (filter (\<lambda>m. days_before_month y m < n) [1..12])))"

text \<open>\<open>(end - start).days\<close> and \<open>timedelta(days=k)\<close>, \<open>timedelta(minutes=k)\<close>.\<close>

definition delta_days :: "datetime \<Rightarrow> datetime \<Rightarrow> int" where
  "delta_days end start = (end - start) div 86400"

definition timedelta_days :: "int \<Rightarrow> timedelta" where
  "timedelta_days k = k * 86400"

definition timedelta_minutes :: "int \<Rightarrow> timedelta" where
  "timedelta_minutes k = k * 60"

subsection \<open>Configuration and lookup tables\<close>


definition DATE_START :: datetime where
  "DATE_START = mk_datetime 2024 1 1"

definition DATE_END :: datetime where
  "DATE_END = mk_datetime 2025 12 31"

record config =
  NUM_CUSTOMERS :: int
  NUM_PRODUCTS :: int
  NUM_ORDERS :: int
  NUM_EVENTS :: int

definition default_config :: config where
  "default_config =
     \<lparr>NUM_CUSTOMERS = 2000, NUM_PRODUCTS = 200, NUM_ORDERS = 10000, NUM_EVENTS = 50000\<rparr>"

definition FIRST_NAMES :: "string list" where
  "FIRST_NAMES =
    [
     ''James'', ''Mary'', ''Robert'', ''Patricia'', ''John'', ''Jennifer'', ''Michael'',
     ''Linda'', ''David'', ''Elizabeth'', ''William'', ''Barbara'', ''Richard'', ''Susan'',
     ''Joseph'', ''Jessica'', ''Thomas'', ''Sarah'', ''Christopher'', ''Karen'',
     ''Daniel'', ''Lisa'', ''Matthew'', ''Nancy'', ''Anthony'', ''Betty'', ''Mark'',
     ''Margaret'', ''Steven'', ''Sandra'', ''Paul'', ''Ashley'', ''Andrew'', ''Dorothy'',
     ''Joshua'', ''Kimberly'', ''Kenneth'', ''Emily'', ''Kevin'', ''Donna'', ''Brian'',
     ''Michelle'', ''George'', ''Carol'', ''Timothy'', ''Amanda'', ''Ronald'', ''Melissa'',
     ''Edward'', ''Deborah'', ''Jason'', ''Stephanie'', ''Jeffrey'', ''Rebecca'', ''Ryan'',
     ''Sharon'', ''Jacob'', ''Laura'', ''Gary'', ''Cynthia'', ''Nicholas'', ''Kathleen'',
     ''Eric'', ''Amy'', ''Jonathan'', ''Angela'', ''Stephen'', ''Shirley'', ''Larry'',
     ''Anna'']"

definition LAST_NAMES :: "string list" where
  "LAST_NAMES =
    [
     ''Smith'', ''Johnson'', ''Williams'', ''Brown'', ''Jones'', ''Garcia'', ''Miller'',
     ''Davis'', ''Rodriguez'', ''Martinez'', ''Hernandez'', ''Lopez'', ''Gonzalez'',
     ''Wilson'', ''Anderson'', ''Thomas'', ''Taylor'', ''Moore'', ''Jackson'', ''Martin'',
     ''Lee'', ''Perez'', ''Thompson'', ''White'', ''Harris'', ''Sanchez'', ''Clark'',
     ''Ramirez'', ''Lewis'', ''Robinson'', ''Walker'', ''Young'', ''Allen'', ''King'',
     ''Wright'', ''Scott'', ''Torres'', ''Nguyen'', ''Hill'', ''Flores'', ''Green'',
     ''Adams'', ''Nelson'', ''Baker'', ''Hall'', ''Rivera'', ''Campbell'', ''Mitchell'',
     ''Carter'', ''Roberts'', ''Chen'', ''Patel'', ''Shah'', ''Kim'', ''Park'', ''Singh'']"

definition CITIES :: "string list" where
  "CITIES =
    [
     ''New York'', ''Los Angeles'', ''Chicago'', ''Houston'', ''Phoenix'',
     ''Philadelphia'', ''San Antonio'', ''San Diego'', ''Dallas'', ''San Jose'',
     ''Austin'', ''Jacksonville'', ''Fort Worth'', ''Columbus'', ''Charlotte'',
     ''Indianapolis'', ''San Francisco'', ''Seattle'', ''Denver'', ''Washington'',
     ''Nashville'', ''Oklahoma City'', ''El Paso'', ''Boston'', ''Portland'',
     ''Las Vegas'', ''Memphis'', ''Louisville'', ''Baltimore'', ''Milwaukee'']"

definition SEGMENTS :: "string list" where
  "SEGMENTS = [''enterprise'', ''mid-market'', ''smb'']"

definition SEGMENT_WEIGHTS :: "rat list" where
  "SEGMENT_WEIGHTS = [15 / 100, 30 / 100, 55 / 100]"

text \<open>The dictionary \<open>CATEGORIES\<close>, in insertion order.\<close>

definition CATEGORIES :: "(string \<times> string list) list" where
  "CATEGORIES =
    [(''Electronics'', [''Laptops'', ''Phones'', ''Tablets'', ''Accessories'', ''Audio'']),
     (''Clothing'', [''Tops'', ''Bottoms'', ''Outerwear'', ''Footwear'', ''Activewear'']),
     (''Home & Kitchen'', [''Cookware'', ''Furniture'', ''Decor'', ''Appliances'', ''Bedding'']),
     (''Office Supplies'',
        [''Writing'', ''Paper'', ''Organization'', ''Tech Accessories'', ''Bags''])]"

definition PAYMENT_METHODS :: "string list" where
  "PAYMENT_METHODS = [''credit_card'', ''debit_card'', ''paypal'', ''wire_transfer'']"

definition PAYMENT_WEIGHTS :: "rat list" where
  "PAYMENT_WEIGHTS = [45 / 100, 25 / 100, 20 / 100, 10 / 100]"

definition DEVICE_TYPES :: "string list" where
  "DEVICE_TYPES = [''desktop'', ''mobile'', ''tablet'']"

definition DEVICE_WEIGHTS :: "rat list" where
  "DEVICE_WEIGHTS = [40 / 100, 45 / 100, 15 / 100]"

subsection \<open>Helpers\<close>

definition random_date :: "datetime \<Rightarrow> datetime \<Rightarrow> rng \<Rightarrow> error + datetime \<times> rng" where
  "random_date start end g =
     (let delta = delta_days end start in
      case random_randint 0 delta g of
        Inl e \<Rightarrow> Inl e
      | Inr (k, g') \<Rightarrow> Inr (start + timedelta_days k, g'))"

text \<open>
  \<open>seasonal_date\<close> calls itself; the first argument is the number of nested calls the
  recursion limit of the interpreter still allows. The second \<open>if\<close> of the script
  draws \<open>random.random()\<close> only when the month is in the first quarter.
\<close>

fun seasonal_date :: "nat \<Rightarrow> datetime \<Rightarrow> datetime \<Rightarrow> rng \<Rightarrow> error + datetime \<times> rng" where
  "seasonal_date 0 start end g = Inl RecursionError"
| "seasonal_date (Suc depth) start end g =
     (case random_date start end g of
        Inl e \<Rightarrow> Inl e
      | Inr (d, g1) \<Rightarrow>
          (let month = month_of d in
           if month \<in> {10, 11, 12} then Inr (d, g1)
           else if month \<in> {1, 2, 3} then
             (case random_random g1 of
                (u, g2) \<Rightarrow>
                  if u < 3 / 10 then seasonal_date depth start end g2 else Inr (d, g2))
           else Inr (d, g1)))"

definition pareto_choice :: "'a list \<Rightarrow> rat \<Rightarrow> rng \<Rightarrow> error + 'a \<times> rng" where
  "pareto_choice items alpha g =
     (case random_paretovariate_int alpha g of
        (k, g') \<Rightarrow>
          if length items = 0 then Inl ZeroDivisionError
          else (case py_index items (k mod int (length items)) of
                  Inl e \<Rightarrow> Inl e
                | Inr x \<Rightarrow> Inr (x, g')))"

text \<open>
  \<open>make_email\<close>; the first argument stands for
  \<open>lambda s: hashlib.md5(s.encode()).hexdigest()\<close>.
\<close>

definition make_email ::
  "(string \<Rightarrow> string) \<Rightarrow> string \<Rightarrow> string \<Rightarrow> int \<Rightarrow> rng \<Rightarrow> error + string \<times> rng" where
  "make_email md5_hexdigest first last' idx g =
     (let tag = take 4 (md5_hexdigest (first @ last' @ str_int idx)) in
      case random_choice
             [''gmail.com'', ''yahoo.com'', ''outlook.com'', ''company.io'', ''mail.com''] g of
        Inl e \<Rightarrow> Inl e
      | Inr (domain, g') \<Rightarrow>
          Inr (lower first @ ''.'' @ lower last' @ tag @ ''@'' @ domain, g'))"

subsection \<open>Rows\<close>

record customer =
  c_customer_id :: int
  c_name :: string
  c_email :: string
  c_city :: "string option"
  c_signup_date :: datetime
  c_segment :: string

record product =
  p_product_id :: int
  p_name :: string
  p_category :: string
  p_subcategory :: string
  p_cost_price :: rat
  p_list_price :: rat

record order =
  o_order_id :: int
  o_customer_id :: int
  o_order_date :: datetime
  o_product_id :: int
  o_quantity :: int
  o_unit_price :: rat
  o_total_amount :: rat
  o_status :: string
  o_payment_method :: string

record event =
  e_event_id :: int
  e_customer_id :: int
  e_event_type :: string
  e_event_date :: datetime
  e_session_id :: string
  e_device_type :: string

subsection \<open>\<open>generate_customers\<close>\<close>

text \<open>One pass of the loop body, for the index \<open>i\<close>.\<close>

definition customer_row :: "(string \<Rightarrow> string) \<Rightarrow> int \<Rightarrow> rng \<Rightarrow> error + customer \<times> rng" where
  "customer_row md5_hexdigest i g =
     (case random_choice FIRST_NAMES g of Inl e \<Rightarrow> Inl e | Inr (first, g1) \<Rightarrow>
      case random_choice LAST_NAMES g1 of Inl e \<Rightarrow> Inl e | Inr (last', g2) \<Rightarrow>
      let name = first @ '' '' @ last' in
      case make_email md5_hexdigest first last' i g2 of Inl e \<Rightarrow> Inl e | Inr (email, g3) \<Rightarrow>
      case random_random g3 of (u, g4) \<Rightarrow>
      case (if 3 / 100 < u
            then (case random_choice CITIES g4 of
                    Inl e \<Rightarrow> Inl e
                  | Inr (c, g5) \<Rightarrow> Inr (Some c, g5))
            else Inr (None, g4)) of Inl e \<Rightarrow> Inl e | Inr (city, g6) \<Rightarrow>
      case random_date DATE_START DATE_END g6 of Inl e \<Rightarrow> Inl e | Inr (signup_date, g7) \<Rightarrow>
      case random_choices SEGMENTS SEGMENT_WEIGHTS g7 of Inl e \<Rightarrow> Inl e | Inr (segment, g8) \<Rightarrow>
      Inr (\<lparr>c_customer_id = i, c_name = name, c_email = email, c_city = city,
            c_signup_date = signup_date, c_segment = segment\<rparr>, g8))"

fun customers_loop ::
  "(string \<Rightarrow> string) \<Rightarrow> int list \<Rightarrow> customer list \<Rightarrow> rng \<Rightarrow> error + customer list \<times> rng" where
  "customers_loop md5_hexdigest [] rows g = Inr (rows, g)"
| "customers_loop md5_hexdigest (i # is) rows g =
     (case customer_row md5_hexdigest i g of
        Inl e \<Rightarrow> Inl e
      | Inr (row, g') \<Rightarrow> customers_loop md5_hexdigest is (rows @ [row]) g')"

definition generate_customers ::
  "(string \<Rightarrow> string) \<Rightarrow> config \<Rightarrow> rng \<Rightarrow> error + customer list \<times> rng" where
  "generate_customers md5_hexdigest cfg g =
     customers_loop md5_hexdigest [1..NUM_CUSTOMERS cfg] [] g"

subsection \<open>\<open>generate_products\<close>\<close>

definition adjectives :: "string list" where
  "adjectives =
     [''Pro'', ''Ultra'', ''Basic'', ''Premium'', ''Lite'', ''Max'', ''Classic'', ''Elite'',
      ''Essential'', ''Advanced'']"

definition product_name :: "string \<Rightarrow> string \<Rightarrow> int \<Rightarrow> string" where
  "product_name adj subcat pid = adj @ '' '' @ rstrip CHR ''s'' subcat @ '' '' @ str_int pid"

text \<open>The body of the innermost loop of the taxonomy pass.\<close>

definition taxonomy_product :: "string \<Rightarrow> string \<Rightarrow> int \<Rightarrow> rng \<Rightarrow> error + product \<times> rng" where
  "taxonomy_product category subcat pid g =
     (case random_choice adjectives g of Inl e \<Rightarrow> Inl e | Inr (adj, g1) \<Rightarrow>
      case random_uniform 5 200 g1 of (x, g2) \<Rightarrow>
      let cost = round2 x in
      case random_random g2 of (u, g3) \<Rightarrow>
      case (if u < 3 / 100 then random_uniform (1 / 2) (9 / 10) g3
            else random_uniform (12 / 10) 3 g3) of (f, g4) \<Rightarrow>
      Inr (\<lparr>p_product_id = pid, p_name = product_name adj subcat pid, p_category = category,
            p_subcategory = subcat, p_cost_price = cost, p_list_price = round2 (cost * f)\<rparr>,
           g4))"

text \<open>\<open>for _ in range(per_subcat)\<close>; the loops carry \<open>rows\<close>, \<open>pid\<close> and the generator.\<close>

fun per_subcat_loop ::
  "nat \<Rightarrow> string \<Rightarrow> string \<Rightarrow> product list \<Rightarrow> int \<Rightarrow> rng
     \<Rightarrow> error + product list \<times> int \<times> rng" where
  "per_subcat_loop 0 category subcat rows pid g = Inr (rows, pid, g)"
| "per_subcat_loop (Suc k) category subcat rows pid g =
     (case taxonomy_product category subcat pid g of
        Inl e \<Rightarrow> Inl e
      | Inr (row, g') \<Rightarrow> per_subcat_loop k category subcat (rows @ [row]) (pid + 1) g')"

text \<open>\<open>for subcat in subcats\<close>.\<close>

fun subcats_loop ::
  "int \<Rightarrow> string \<Rightarrow> string list \<Rightarrow> product list \<Rightarrow> int \<Rightarrow> rng
     \<Rightarrow> error + product list \<times> int \<times> rng" where
  "subcats_loop per_subcat category [] rows pid g = Inr (rows, pid, g)"
| "subcats_loop per_subcat category (subcat # subcats) rows pid g =
     (case per_subcat_loop (nat per_subcat) category subcat rows pid g of
        Inl e \<Rightarrow> Inl e
      | Inr (rows', pid', g') \<Rightarrow> subcats_loop per_subcat category subcats rows' pid' g')"

text \<open>\<open>for category, subcats in CATEGORIES.items()\<close>; \<open>//\<close> raises on a zero divisor.\<close>

fun categories_loop ::
  "int \<Rightarrow> (string \<times> string list) list \<Rightarrow> product list \<Rightarrow> int \<Rightarrow> rng
     \<Rightarrow> error + product list \<times> int \<times> rng" where
  "categories_loop n [] rows pid g = Inr (rows, pid, g)"
| "categories_loop n ((category, subcats) # rest) rows pid g =
     (let divisor = int (length CATEGORIES) * int (length subcats) in
      if divisor = 0 then Inl ZeroDivisionError
      else
        (let per_subcat = n div divisor in
         case subcats_loop per_subcat category subcats rows pid g of
           Inl e \<Rightarrow> Inl e
         | Inr (rows', pid', g') \<Rightarrow> categories_loop n rest rows' pid' g'))"

text \<open>The body of the top-up loop.\<close>

definition topup_product :: "int \<Rightarrow> rng \<Rightarrow> error + product \<times> rng" where
  "topup_product pid g =
     (case random_choice (map fst CATEGORIES) g of Inl e \<Rightarrow> Inl e | Inr (cat, g1) \<Rightarrow>
      case map_of CATEGORIES cat of None \<Rightarrow> Inl KeyError | Some subcats \<Rightarrow>
      case random_choice subcats g1 of Inl e \<Rightarrow> Inl e | Inr (subcat, g2) \<Rightarrow>
      case random_choice adjectives g2 of Inl e \<Rightarrow> Inl e | Inr (adj, g3) \<Rightarrow>
      case random_uniform 5 200 g3 of (x, g4) \<Rightarrow>
      let cost = round2 x in
      case random_uniform (12 / 10) 3 g4 of (f, g5) \<Rightarrow>
      Inr (\<lparr>p_product_id = pid, p_name = product_name adj subcat pid, p_category = cat,
            p_subcategory = subcat, p_cost_price = cost, p_list_price = round2 (cost * f)\<rparr>,
           g5))"

text \<open>\<open>while len(rows) < NUM_PRODUCTS\<close>.\<close>

function topup_loop ::
  "int \<Rightarrow> product list \<Rightarrow> int \<Rightarrow> rng \<Rightarrow> error + product list \<times> rng" where
  "topup_loop n rows pid g =
     (if int (length rows) < n then
        (case topup_product pid g of
           Inl e \<Rightarrow> Inl e
         | Inr (row, g') \<Rightarrow> topup_loop n (rows @ [row]) (pid + 1) g')
      else Inr (rows, g))"
  by pat_completeness auto
termination
  by (relation "measure (\<lambda>(n, rows, pid, g). nat (n - int (length rows)))") auto

definition generate_products :: "config \<Rightarrow> rng \<Rightarrow> error + product list \<times> rng" where
  "generate_products cfg g =
     (case categories_loop (NUM_PRODUCTS cfg) CATEGORIES [] 1 g of
        Inl e \<Rightarrow> Inl e
      | Inr (rows, pid, g') \<Rightarrow> topup_loop (NUM_PRODUCTS cfg) rows pid g')"

subsection \<open>\<open>generate_orders\<close>\<close>

text \<open>The dictionary comprehension \<open>{p[0]: p[5] for p in products}\<close>: a later row wins.\<close>

definition product_prices_of :: "product list \<Rightarrow> int \<rightharpoonup> rat" where
  "product_prices_of products =
     fold (\<lambda>p m. m(p_product_id p \<mapsto> p_list_price p)) products Map.empty"

text \<open>The body of the main loop, for the order id \<open>i\<close>.\<close>

definition order_row ::
  "nat \<Rightarrow> int list \<Rightarrow> int list \<Rightarrow> (int \<rightharpoonup> rat) \<Rightarrow> int \<Rightarrow> rng \<Rightarrow> error + order \<times> rng" where
  "order_row depth customer_ids product_ids product_prices i g =
     (case pareto_choice customer_ids (12 / 10) g of Inl e \<Rightarrow> Inl e | Inr (cid, g1) \<Rightarrow>
      case random_choice product_ids g1 of Inl e \<Rightarrow> Inl e | Inr (pid, g2) \<Rightarrow>
      case seasonal_date depth DATE_START DATE_END g2 of
        Inl e \<Rightarrow> Inl e | Inr (order_date, g3) \<Rightarrow>
      case random_choices [1, 2, 3, 4, 5] [50, 25, 15, 7, 3] g3 of
        Inl e \<Rightarrow> Inl e | Inr (quantity, g4) \<Rightarrow>
      case product_prices pid of None \<Rightarrow> Inl KeyError | Some unit_price \<Rightarrow>
      let total = round2 (unit_price * of_int quantity) in
      case random_random g4 of (r, g5) \<Rightarrow>
      let status = (if r < 10 / 100 then ''cancelled''
                    else if r < 15 / 100 then ''returned''
                    else ''completed'') in
      case random_choices PAYMENT_METHODS PAYMENT_WEIGHTS g5 of
        Inl e \<Rightarrow> Inl e | Inr (pm, g6) \<Rightarrow>
      Inr (\<lparr>o_order_id = i, o_customer_id = cid, o_order_date = order_date,
            o_product_id = pid, o_quantity = quantity, o_unit_price = unit_price,
            o_total_amount = total, o_status = status, o_payment_method = pm\<rparr>, g6))"

fun orders_loop ::
  "nat \<Rightarrow> int list \<Rightarrow> int list \<Rightarrow> (int \<rightharpoonup> rat) \<Rightarrow> int list \<Rightarrow> order list \<Rightarrow> rng
     \<Rightarrow> error + order list \<times> rng" where
  "orders_loop depth customer_ids product_ids product_prices [] rows g = Inr (rows, g)"
| "orders_loop depth customer_ids product_ids product_prices (i # is) rows g =
     (case order_row depth customer_ids product_ids product_prices i g of
        Inl e \<Rightarrow> Inl e
      | Inr (row, g') \<Rightarrow>
          orders_loop depth customer_ids product_ids product_prices is (rows @ [row]) g')"

text \<open>
  \<open>for dup_offset in range(5): src = rows[duplicate_target + dup_offset]; rows.append(src)\<close>:
  each read sees the rows appended so far.
\<close>

fun duplicate_loop :: "int \<Rightarrow> int list \<Rightarrow> 'a list \<Rightarrow> error + 'a list" where
  "duplicate_loop duplicate_target [] rows = Inr rows"
| "duplicate_loop duplicate_target (dup_offset # rest) rows =
     (case py_index rows (duplicate_target + dup_offset) of
        Inl e \<Rightarrow> Inl e
      | Inr src \<Rightarrow> duplicate_loop duplicate_target rest (rows @ [src]))"

definition generate_orders ::
  "nat \<Rightarrow> config \<Rightarrow> customer list \<Rightarrow> product list \<Rightarrow> rng \<Rightarrow> error + order list \<times> rng" where
  "generate_orders depth cfg customers products g =
     (let customer_ids = map c_customer_id customers;
          product_ids = map p_product_id products;
          product_prices = product_prices_of products in
      case random_randint 8050 8150 g of Inl e \<Rightarrow> Inl e | Inr (duplicate_target, g1) \<Rightarrow>
      case orders_loop depth customer_ids product_ids product_prices [1..NUM_ORDERS cfg] [] g1 of
        Inl e \<Rightarrow> Inl e | Inr (rows, g2) \<Rightarrow>
      case duplicate_loop duplicate_target [0..4] rows of
        Inl e \<Rightarrow> Inl e | Inr rows' \<Rightarrow> Inr (rows', g2))"

subsection \<open>\<open>generate_events\<close>\<close>

definition event_row :: "int \<Rightarrow> int \<Rightarrow> string \<Rightarrow> datetime \<Rightarrow> string \<Rightarrow> string \<Rightarrow> event" where
  "event_row eid cid event_type ts session_id device =
     \<lparr>e_event_id = eid, e_customer_id = cid, e_event_type = event_type, e_event_date = ts,
      e_session_id = session_id, e_device_type = device\<rparr>"

text \<open>
  One pass of the body of the \<open>while\<close> loop: the new \<open>rows\<close> and \<open>eid\<close>, and whether the
  pass left through a \<open>break\<close>.
\<close>

definition session ::
  "int \<Rightarrow> int list \<Rightarrow> event list \<Rightarrow> int \<Rightarrow> int \<Rightarrow> rng
     \<Rightarrow> error + event list \<times> int \<times> bool \<times> rng" where
  "session n customer_ids rows eid session_counter g =
     (case pareto_choice customer_ids (12 / 10) g of Inl e \<Rightarrow> Inl e | Inr (cid, g1) \<Rightarrow>
      case random_choices DEVICE_TYPES DEVICE_WEIGHTS g1 of
        Inl e \<Rightarrow> Inl e | Inr (device, g2) \<Rightarrow>
      let session_id = ''sess_'' @ format_06d session_counter in
      case random_date DATE_START DATE_END g2 of Inl e \<Rightarrow> Inl e | Inr (base_date, g3) \<Rightarrow>
      let rows1 = rows @ [event_row eid cid ''page_view'' base_date session_id device];
          eid1 = eid + 1 in
      if n < eid1 then Inr (rows1, eid1, True, g3)
      else
      case random_random g3 of (u1, g4) \<Rightarrow>
      if u1 < 30 / 100 then
        (case random_randint 1 10 g4 of Inl e \<Rightarrow> Inl e | Inr (m1, g5) \<Rightarrow>
         let ts1 = base_date + timedelta_minutes m1;
             rows2 = rows1 @ [event_row eid1 cid ''add_to_cart'' ts1 session_id device];
             eid2 = eid1 + 1 in
         if n < eid2 then Inr (rows2, eid2, True, g5)
         else
         case random_random g5 of (u2, g6) \<Rightarrow>
         if u2 < 50 / 100 then
           (case random_randint 11 20 g6 of Inl e \<Rightarrow> Inl e | Inr (m2, g7) \<Rightarrow>
            let ts2 = base_date + timedelta_minutes m2;
                rows3 = rows2 @ [event_row eid2 cid ''checkout_start'' ts2 session_id device];
                eid3 = eid2 + 1 in
            if n < eid3 then Inr (rows3, eid3, True, g7)
            else
            case random_random g7 of (u3, g8) \<Rightarrow>
            if u3 < 70 / 100 then
              (case random_randint 21 30 g8 of Inl e \<Rightarrow> Inl e | Inr (m3, g9) \<Rightarrow>
               let ts3 = base_date + timedelta_minutes m3;
                   rows4 = rows3 @ [event_row eid3 cid ''purchase'' ts3 session_id device];
                   eid4 = eid3 + 1 in
               if n < eid4 then Inr (rows4, eid4, True, g9)
               else Inr (rows4, eid4, False, g9))
            else Inr (rows3, eid3, False, g8))
         else Inr (rows2, eid2, False, g6))
      else Inr (rows1, eid1, False, g4))"

text \<open>\<open>while eid <= NUM_EVENTS\<close>; every pass appends at least the page view.\<close>

function events_loop ::
  "int \<Rightarrow> int list \<Rightarrow> event list \<Rightarrow> int \<Rightarrow> int \<Rightarrow> rng \<Rightarrow> error + event list \<times> rng" where
  "events_loop n customer_ids rows eid session_counter g =
     (if eid \<le> n then
        (case session n customer_ids rows eid session_counter g of
           Inl e \<Rightarrow> Inl e
         | Inr (rows', eid', brk, g') \<Rightarrow>
             if brk then Inr (rows', g')
             else events_loop n customer_ids rows' eid' (session_counter + 1) g')
      else Inr (rows, g))"
  by pat_completeness auto
termination
  by (relation "measure (\<lambda>(n, customer_ids, rows, eid, session_counter, g). nat (n + 1 - eid))")
     (auto simp: session_def Let_def split: sum.splits prod.splits if_splits)

definition generate_events :: "config \<Rightarrow> customer list \<Rightarrow> rng \<Rightarrow> error + event list \<times> rng" where
  "generate_events cfg customers g =
     events_loop (NUM_EVENTS cfg) (map c_customer_id customers) [] 1 1 g"

subsection \<open>\<open>load_data\<close>\<close>

text \<open>The four generator calls at the head of \<open>load_data\<close>.\<close>

definition generate_tables ::
  "nat \<Rightarrow> (string \<Rightarrow> string) \<Rightarrow> config \<Rightarrow> rng
     \<Rightarrow> error + (customer list \<times> product list \<times> order list \<times> event list) \<times> rng" where
  "generate_tables depth md5_hexdigest cfg g =
     (case generate_customers md5_hexdigest cfg g of
        Inl e \<Rightarrow> Inl e | Inr (customers, g1) \<Rightarrow>
      case generate_products cfg g1 of
        Inl e \<Rightarrow> Inl e | Inr (products, g2) \<Rightarrow>
      case generate_orders depth cfg customers products g2 of
        Inl e \<Rightarrow> Inl e | Inr (orders, g3) \<Rightarrow>
      case generate_events cfg customers g3 of
        Inl e \<Rightarrow> Inl e | Inr (events, g4) \<Rightarrow>
      Inr ((customers, products, orders, events), g4))"









section \<open>Predicates and example inputs of the statements\<close>

subsection \<open>Predicates\<close>

text \<open>
  \<open>funnel_ordered\<close>: every \<open>checkout_start\<close> has an earlier \<open>add_to_cart\<close> of its session,
  every \<open>purchase\<close> an earlier \<open>checkout_start\<close>. \<open>good_product\<close>: the price bounds of a
  generated product. \<open>taxonomy_slots\<close>: the (category, subcategory) of each row of the
  taxonomy pass, \<open>per\<close> rows for each subcategory. \<open>order_row_ok\<close>: what one pass of the
  order loop guarantees of its row.
\<close>

definition funnel_ordered :: "event list \<Rightarrow> bool" where
  "funnel_ordered rows \<longleftrightarrow>
     (\<forall>r \<in> set rows.
        (e_event_type r = ''checkout_start'' \<longrightarrow>
           (\<exists>a \<in> set rows. e_session_id a = e_session_id r \<and>
              e_event_type a = ''add_to_cart'' \<and> e_event_date a < e_event_date r)) \<and>
        (e_event_type r = ''purchase'' \<longrightarrow>
           (\<exists>c \<in> set rows. e_session_id c = e_session_id r \<and>
              e_event_type c = ''checkout_start'' \<and> e_event_date c < e_event_date r)))"

definition good_product :: "product \<Rightarrow> bool" where
  "good_product p \<longleftrightarrow>
     5 \<le> p_cost_price p \<and> p_cost_price p \<le> 200 \<and>
     round2 (p_cost_price p * (1 / 2)) \<le> p_list_price p \<and> 5 / 2 \<le> p_list_price p"

definition product_slot :: "product \<Rightarrow> string \<times> string" where
  "product_slot p = (p_category p, p_subcategory p)"

definition taxonomy_slots :: "nat \<Rightarrow> (string \<times> string list) list \<Rightarrow> (string \<times> string) list" where
  "taxonomy_slots per categories =
     concat (map (\<lambda>(category, subcats).
                    concat (map (\<lambda>subcat. replicate per (category, subcat)) subcats))
                 categories)"

definition order_row_ok :: "int list \<Rightarrow> int list \<Rightarrow> (int \<rightharpoonup> rat) \<Rightarrow> order \<Rightarrow> bool" where
  "order_row_ok customer_ids product_ids product_prices r \<longleftrightarrow>
     o_customer_id r \<in> set customer_ids \<and>
     o_product_id r \<in> set product_ids \<and>
     product_prices (o_product_id r) = Some (o_unit_price r) \<and>
     o_quantity r \<in> {1, 2, 3, 4, 5} \<and>
     o_total_amount r = round2 (o_unit_price r * of_int (o_quantity r)) \<and>
     o_status r \<in> {''cancelled'', ''returned'', ''completed''} \<and>
     DATE_START \<le> o_order_date r \<and> o_order_date r \<le> DATE_END"

subsection \<open>Example inputs\<close>

text \<open>
  \<open>example_rng\<close> is a generator whose raw draws are all \<open>2^52\<close>, so that
  \<open>random.random()\<close> is \<open>0.5\<close>; \<open>example_session\<close> is the session that a generator
  whose raw draws are all \<open>0\<close> produces for \<open>example_customer\<close>. \<open>raises_first_drop\<close> and
  \<open>never_raises\<close> say which calls of \<open>load_data\<close> raise.
\<close>

definition example_rng :: rng where
  "example_rng = sconst (2 ^ 52)"

definition example_customer :: customer where
  "example_customer =
     \<lparr>c_customer_id = 7, c_name = ''Mary Smith'', c_email = ''mary.smith0000@mail.com'',
      c_city = None, c_signup_date = DATE_START, c_segment = ''smb''\<rparr>"

definition example_session :: "event list" where
  "example_session =
     [event_row 1 7 ''page_view'' DATE_START ''sess_000001'' ''desktop'',
      event_row 2 7 ''add_to_cart'' (DATE_START + 60) ''sess_000001'' ''desktop'',
      event_row 3 7 ''checkout_start'' (DATE_START + 660) ''sess_000001'' ''desktop'',
      event_row 4 7 ''purchase'' (DATE_START + 1260) ''sess_000001'' ''desktop'']"

definition example_product :: product where
  "example_product =
     \<lparr>p_product_id = 1, p_name = ''Pro Laptop 1'', p_category = ''Electronics'',
      p_subcategory = ''Laptops'', p_cost_price = 100, p_list_price = 150\<rparr>"

definition example_md5 :: "string \<Rightarrow> string" where
  "example_md5 s = ''0123456789abcdef0123456789abcdef''"





section \<open>Facts about the library model\<close>

lemma random_random_range:
  "random_random g = (u, g') \<Longrightarrow> 0 \<le> u \<and> u < 1"
  by (auto simp: random_random_def divide_less_eq) 

lemma random_random_stl: "snd (random_random g) = stl g"
  by (simp add: random_random_def)

lemma random_uniform_range:
  assumes "a \<le> b" and "random_uniform a b g = (x, g')"
  shows "a \<le> x \<and> x \<le> b"
proof -
  obtain u g1 where u: "random_random g = (u, g1)" by (cases "random_random g")
  then have r: "0 \<le> u" "u < 1" using random_random_range by blast+
  from assms(2) u have x: "x = a + (b - a) * u" by (simp add: random_uniform_def)
  have "0 \<le> (b - a) * u" using assms(1) r by simp
  moreover have "(b - a) * u \<le> (b - a) * 1" using assms(1) r by (intro mult_left_mono) auto
  ultimately show ?thesis using x by simp
qed

lemma random_randint_Inr:
  assumes "a \<le> b"
  shows "\<exists>k. random_randint a b g = Inr (k, stl g) \<and> a \<le> k \<and> k \<le> b"
proof -
  have "shd g mod nat (b - a + 1) < nat (b - a + 1)" using assms by simp
  then have "int (shd g mod nat (b - a + 1)) \<le> b - a" using assms by linarith
  then show ?thesis using assms by (simp add: random_randint_def)
qed

lemma random_randint_range:
  "random_randint a b g = Inr (k, g') \<Longrightarrow> a \<le> k \<and> k \<le> b \<and> g' = stl g"
  using random_randint_Inr [of a b g] by (cases "b < a") (auto simp: random_randint_def)

lemma random_choice_Inr:
  "seq \<noteq> [] \<Longrightarrow> \<exists>x. random_choice seq g = Inr (x, stl g) \<and> x \<in> set seq"
  by (simp add: random_choice_def)

lemma random_choice_mem:
  "random_choice seq g = Inr (x, g') \<Longrightarrow> x \<in> set seq \<and> g' = stl g"
  by (auto simp: random_choice_def split: if_splits)

lemma length_accumulate: "length (accumulate acc ws) = length ws"
  by (induction ws arbitrary: acc) auto

lemma capped_index_mem: "population \<noteq> [] \<Longrightarrow> population ! min k (length population - 1) \<in> set population"
  by (intro nth_mem) (cases population, auto)

lemma random_choices_mem:
  assumes "random_choices population weights g = Inr (x, g')"
  shows "x \<in> set population \<and> g' = stl g"
proof -
  from assms have ne: "population \<noteq> []"
    by (auto simp: random_choices_def Let_def length_accumulate split: if_splits)
  obtain u g1 where u: "random_random g = (u, g1)" by (cases "random_random g")
  then have "g1 = stl g" by (simp add: random_random_def)
  with assms u ne capped_index_mem [OF ne] show ?thesis
    by (auto simp: random_choices_def Let_def split: if_splits)
qed

lemma random_choices_Inr:
  assumes "length weights = length population" "population \<noteq> []"
    "0 < last (accumulate 0 weights)"
  shows "\<exists>x. random_choices population weights g = Inr (x, stl g) \<and> x \<in> set population"
proof -
  have "accumulate 0 weights \<noteq> []" using assms(1,2) length_accumulate [of 0 weights] by auto
  moreover obtain u g1 where u: "random_random g = (u, g1)" by (cases "random_random g")
  moreover from u have "g1 = stl g" by (simp add: random_random_def)
  ultimately show ?thesis using assms capped_index_mem [OF assms(2)]
    by (simp add: random_choices_def Let_def length_accumulate)
qed

lemma py_index_Inr: "0 \<le> i \<Longrightarrow> i < int (length xs) \<Longrightarrow> py_index xs i = Inr (xs ! nat i)"
  by (simp add: py_index_def)

lemma pareto_choice_Inr:
  assumes "items \<noteq> []"
  shows "\<exists>x. pareto_choice items alpha g = Inr (x, stl g) \<and> x \<in> set items"
proof -
  let ?n = "int (length items)"
  let ?i = "(1 + int (shd g)) mod ?n"
  have n: "0 < ?n" using assms by simp
  then have i: "0 \<le> ?i" "?i < ?n" by simp_all
  then have "py_index items ?i = Inr (items ! nat ?i)" by (rule py_index_Inr)
  moreover have "items ! nat ?i \<in> set items" using i by simp
  ultimately show ?thesis using assms
    by (simp add: pareto_choice_def random_paretovariate_int_def)
qed

lemma pareto_choice_mem:
  "pareto_choice items alpha g = Inr (x, g') \<Longrightarrow> x \<in> set items \<and> g' = stl g"
  using pareto_choice_Inr [of items alpha g]
  by (cases "items = []") (auto simp: pareto_choice_def random_paretovariate_int_def)

lemma random_date_Inr:
  assumes "start \<le> end"
  shows "\<exists>d. random_date start end g = Inr (d, stl g) \<and> start \<le> d \<and> d \<le> end"
proof -
  let ?delta = "delta_days end start"
  have d0: "0 \<le> ?delta" using assms by (simp add: delta_days_def)
  then obtain k where k: "random_randint 0 ?delta g = Inr (k, stl g)" "0 \<le> k" "k \<le> ?delta"
    using random_randint_Inr by blast
  have "(end - start) div 86400 * 86400 + (end - start) mod 86400 = end - start" by simp
  moreover have "0 \<le> (end - start) mod 86400" by simp
  ultimately have "?delta * 86400 \<le> end - start"
    unfolding delta_days_def by linarith
  then have "start + timedelta_days k \<le> end" using k by (simp add: timedelta_days_def)
  moreover have "start \<le> start + timedelta_days k" using k by (simp add: timedelta_days_def)
  ultimately show ?thesis using k by (simp add: random_date_def)
qed

lemma random_date_range:
  assumes "random_date start end g = Inr (d, g')"
  shows "start \<le> d \<and> d \<le> end \<and> g' = stl g"
proof -
  from assms obtain k where k: "random_randint 0 (delta_days end start) g = Inr (k, g')"
    and d: "d = start + timedelta_days k"
    by (auto simp: random_date_def Let_def split: sum.splits)
  from k have r: "0 \<le> k" "k \<le> delta_days end start" "g' = stl g"
    using random_randint_range by blast+
  have "(end - start) div 86400 * 86400 + (end - start) mod 86400 = end - start" by simp
  moreover have "0 \<le> (end - start) mod 86400" by simp
  ultimately have "delta_days end start * 86400 \<le> end - start"
    unfolding delta_days_def by linarith
  with r d show ?thesis by (simp add: timedelta_days_def)
qed

lemma DATE_START_value: "DATE_START = 738886 * 86400"
  by code_simp

lemma DATE_END_value: "DATE_END = 739616 * 86400"
  by code_simp

lemma DATE_START_le_END: "DATE_START \<le> DATE_END"
  by (simp add: DATE_START_value DATE_END_value)

section \<open>The seasonal date sampler\<close>

lemma seasonal_date_range:
  "seasonal_date depth start end g = Inr (r, g') \<Longrightarrow> start \<le> r \<and> r \<le> end"
proof (induction depth arbitrary: g)
  case 0
  then show ?case by simp
next
  case (Suc depth)
  from Suc.prems obtain d g1 where d: "random_date start end g = Inr (d, g1)"
    by (auto split: sum.splits)
  then have range: "start \<le> d" "d \<le> end" using random_date_range by blast+
  show ?case
  proof (cases "seasonal_date (Suc depth) start end g = Inr (d, g1) \<or> seasonal_date (Suc depth) start end g = Inr (d, snd (random_random g1))")
    case True
    with Suc.prems range show ?thesis by auto
  next
    case False
    with d have "seasonal_date (Suc depth) start end g = seasonal_date depth start end (snd (random_random g1))"
      by (auto simp: Let_def split: prod.splits if_splits)
    with Suc.prems Suc.IH show ?thesis by simp
  qed
qed

lemma stl_example_rng: "stl example_rng = example_rng"
  by (simp add: example_rng_def)

lemma shd_example_rng: "shd example_rng = 2 ^ 52"
  by (simp add: example_rng_def)

lemma random_date_example_rng:
  "random_date DATE_START DATE_END example_rng =
     Inr (DATE_START + timedelta_days 594, example_rng)"
  by (simp add: random_date_def random_randint_def DATE_START_value DATE_END_value
        delta_days_def stl_example_rng shd_example_rng)

lemma month_of_example: "month_of (DATE_START + timedelta_days 594) = 8"
  by code_simp

text \<open>
  Claim C9. One invocation of \<open>seasonal_date\<close> (with room for one more nested call) draws
  \<open>random_date(start, end)\<close>, that is \<open>start\<close> plus \<open>randint(0, (end - start).days)\<close> days,
  a date within \<open>[start, end]\<close>. If the month of the drawn date is October, November or
  December, the call returns that date at once. If the month is January, February or March
  and a fresh \<open>random.random()\<close> is below \<open>0.30\<close>, the date is dropped and the result is
  that of the recursive call on the generator after both draws. In every other case the
  call returns the drawn date. Whatever date a call returns, at any depth, lies within
  \<open>[start, end]\<close>. (When \<open>end\<close> is before \<open>start\<close> the draw raises and so does the call.)
\<close>

theorem seasonal_date_sampler:
  "(start \<le> end \<longrightarrow> (\<exists>d g1. random_date start end g = Inr (d, g1))) \<and>
   (\<forall>e. random_date start end g = Inl e \<longrightarrow> seasonal_date (Suc depth) start end g = Inl e) \<and>
   (\<forall>d g1. random_date start end g = Inr (d, g1) \<longrightarrow>
      (\<exists>k. random_randint 0 (delta_days end start) g = Inr (k, g1) \<and> d = start + timedelta_days k) \<and>
      start \<le> d \<and> d \<le> end \<and>
      (month_of d \<in> {10, 11, 12} \<longrightarrow> seasonal_date (Suc depth) start end g = Inr (d, g1)) \<and>
      (month_of d \<in> {1, 2, 3} \<and> fst (random_random g1) < 3 / 10 \<longrightarrow>
         seasonal_date (Suc depth) start end g =
         seasonal_date depth start end (snd (random_random g1))) \<and>
      (month_of d \<in> {1, 2, 3} \<and> \<not> fst (random_random g1) < 3 / 10 \<longrightarrow>
         seasonal_date (Suc depth) start end g = Inr (d, snd (random_random g1))) \<and>
      (month_of d \<notin> {1, 2, 3, 10, 11, 12} \<longrightarrow>
         seasonal_date (Suc depth) start end g = Inr (d, g1))) \<and>
   (\<forall>n r g'. seasonal_date n start end g = Inr (r, g') \<longrightarrow> start \<le> r \<and> r \<le> end)"
proof (intro conjI allI impI)
  assume "start \<le> end"
  then show "\<exists>d g1. random_date start end g = Inr (d, g1)"
    using random_date_Inr by blast
next
  fix e assume "random_date start end g = Inl e"
  then show "seasonal_date (Suc depth) start end g = Inl e" by simp
next
  fix d g1 assume d: "random_date start end g = Inr (d, g1)"
  show "\<exists>k. random_randint 0 (delta_days end start) g = Inr (k, g1) \<and> d = start + timedelta_days k"
    using d by (auto simp: random_date_def Let_def split: sum.splits)
  show "start \<le> d" "d \<le> end" using d random_date_range by blast+
  { assume "month_of d \<in> {10, 11, 12}"
    then show "seasonal_date (Suc depth) start end g = Inr (d, g1)" using d by (simp add: Let_def) }
  { assume "month_of d \<in> {1, 2, 3} \<and> fst (random_random g1) < 3 / 10"
    then show "seasonal_date (Suc depth) start end g = seasonal_date depth start end (snd (random_random g1))"
      using d by (auto simp: Let_def split: prod.splits) }
  { assume "month_of d \<in> {1, 2, 3} \<and> \<not> fst (random_random g1) < 3 / 10"
    then show "seasonal_date (Suc depth) start end g = Inr (d, snd (random_random g1))"
      using d by (auto simp: Let_def split: prod.splits) }
  { assume "month_of d \<notin> {1, 2, 3, 10, 11, 12}"
    then show "seasonal_date (Suc depth) start end g = Inr (d, g1)" using d by (simp add: Let_def) }
next
  fix n r g' assume "seasonal_date n start end g = Inr (r, g')"
  then show "start \<le> r" "r \<le> end" using seasonal_date_range by blast+
qed

theorem seasonal_date_sampler_witness:
  "DATE_START \<le> DATE_END \<and>
   seasonal_date (Suc 0) DATE_START DATE_END example_rng =
     Inr (DATE_START + timedelta_days 594, example_rng) \<and>
   DATE_START \<le> DATE_START + timedelta_days 594 \<and>
   DATE_START + timedelta_days 594 \<le> DATE_END"
  using seasonal_date_sampler [of DATE_START DATE_END example_rng 0]
    random_date_example_rng month_of_example DATE_START_le_END
  by simp

section \<open>The event generator\<close>

declare events_loop.simps [simp del]

lemma random_randint_no_error: "a \<le> b \<Longrightarrow> random_randint a b g \<noteq> Inl e"
  using random_randint_Inr [of a b g] by auto

lemma random_date_no_error: "random_date DATE_START DATE_END g \<noteq> Inl e"
  using random_date_Inr [OF DATE_START_le_END, of g] by auto

lemma pareto_choice_no_error: "items \<noteq> [] \<Longrightarrow> pareto_choice items alpha g \<noteq> Inl e"
  using pareto_choice_Inr [of items alpha g] by auto

lemma random_choice_no_error: "seq \<noteq> [] \<Longrightarrow> random_choice seq g \<noteq> Inl e"
  using random_choice_Inr [of seq g] by auto

lemma device_choices_no_error: "random_choices DEVICE_TYPES DEVICE_WEIGHTS g \<noteq> Inl e"
  using random_choices_Inr [of DEVICE_WEIGHTS DEVICE_TYPES g]
  by (auto simp: DEVICE_TYPES_def DEVICE_WEIGHTS_def)

lemma session_no_error:
  assumes "customer_ids \<noteq> []"
  shows "session n customer_ids rows eid session_counter g \<noteq> Inl e"
  using assms pareto_choice_no_error [OF assms]
  by (auto simp: session_def Let_def random_randint_no_error random_date_no_error
        device_choices_no_error split: sum.splits prod.splits if_splits)

lemma session_returns:
  assumes "customer_ids \<noteq> []"
  shows "\<exists>rows' eid' brk g'.
           session n customer_ids rows eid session_counter g = Inr (rows', eid', brk, g')"
proof (cases "session n customer_ids rows eid session_counter g")
  case (Inl e)
  with session_no_error [OF assms] show ?thesis by blast
next
  case (Inr r)
  then show ?thesis by (cases r) auto
qed

lemma session_eid:
  assumes "session n customer_ids rows eid session_counter g = Inr (rows', eid', brk, g')"
  shows "eid < eid' \<and> (brk \<longleftrightarrow> n < eid') \<and> (eid \<le> n \<longrightarrow> eid' \<le> n + 1)"
  using assms
  by (auto simp: session_def Let_def split: sum.splits prod.splits if_splits)

lemma session_ids:
  assumes "session n customer_ids rows eid session_counter g = Inr (rows', eid', brk, g')"
  shows "\<exists>new. rows' = rows @ new \<and> eid' = eid + int (length new) \<and>
           map e_event_id new = map (\<lambda>k. eid + int k) [0..<length new]"
  using assms
  by (auto simp: session_def Let_def event_row_def split: sum.splits prod.splits if_splits)

lemma upto_from_offsets: "map (\<lambda>k. a + int k) [0..<m] = [a..a + int m - 1]"
proof (induction m)
  case 0
  then show ?case by simp
next
  case (Suc m)
  have "[a..a + int (Suc m) - 1] = [a..a + int m - 1] @ [a + int m]"
    using upto_rec2 [of a "a + int m"] by simp
  with Suc show ?case by simp
qed

lemma ids_extend:
  assumes "map e_event_id rows = [1..eid - 1]" "1 \<le> eid"
    "map e_event_id new = map (\<lambda>k. eid + int k) [0..<length new]"
  shows "map e_event_id (rows @ new) = [1..eid + int (length new) - 1]"
proof -
  show ?thesis
  proof (cases "new = []")
    case True
    with assms show ?thesis by simp
  next
    case False
    then have "0 < length new" by simp
    then have "[1..eid + int (length new) - 1] = [1..eid - 1] @ [eid..eid + int (length new) - 1]"
      using assms(2) by (intro upto_split1) auto
    with assms upto_from_offsets [of eid "length new"] show ?thesis by simp
  qed
qed

lemma events_loop_invariant:
  assumes step: "\<And>rows eid session_counter g rows1 eid1 brk g1.
      I rows eid \<Longrightarrow> eid \<le> n \<Longrightarrow>
      session n customer_ids rows eid session_counter g = Inr (rows1, eid1, brk, g1) \<Longrightarrow>
      I rows1 eid1"
  shows "events_loop n customer_ids rows eid session_counter g = Inr (rows', g') \<Longrightarrow>
         I rows eid \<Longrightarrow> \<exists>eid'. I rows' eid' \<and> n < eid'"
  using step
proof (induction n customer_ids rows eid session_counter g rule: events_loop.induct)
  case (1 n customer_ids rows eid session_counter g)
  show ?case
  proof (cases "eid \<le> n")
    case False
    with "1.prems"(1,2) show ?thesis by (auto simp: events_loop.simps)
  next
    case True
    with "1.prems"(1) obtain rows1 eid1 brk g1
      where s: "session n customer_ids rows eid session_counter g = Inr (rows1, eid1, brk, g1)"
      by (auto simp: events_loop.simps [of n customer_ids rows eid] split: sum.splits)
    have I1: "I rows1 eid1" using "1.prems"(3) [OF "1.prems"(2) True s] .
    show ?thesis
    proof (cases brk)
      case True
      with session_eid [OF s] have "n < eid1" by simp
      moreover from True s "1.prems"(1) \<open>eid \<le> n\<close> have "rows' = rows1"
        by (simp add: events_loop.simps [of n customer_ids rows eid])
      ultimately show ?thesis using I1 by blast
    next
      case False
      with s "1.prems"(1) \<open>eid \<le> n\<close>
      have rec: "events_loop n customer_ids rows1 eid1 (session_counter + 1) g1 = Inr (rows', g')"
        by (simp add: events_loop.simps [of n customer_ids rows eid])
      show ?thesis
        by (rule "1.IH" [OF \<open>eid \<le> n\<close> s refl refl refl False rec I1])
           (rule "1.prems"(3); assumption)
    qed
  qed
qed

lemma events_loop_returns:
  "customer_ids \<noteq> [] \<Longrightarrow>
   \<exists>rows' g'. events_loop n customer_ids rows eid session_counter g = Inr (rows', g')"
proof (induction n customer_ids rows eid session_counter g rule: events_loop.induct)
  case (1 n customer_ids rows eid session_counter g)
  show ?case
  proof (cases "eid \<le> n")
    case False
    then show ?thesis by (simp add: events_loop.simps)
  next
    case True
    obtain rows1 eid1 brk g1
      where s: "session n customer_ids rows eid session_counter g = Inr (rows1, eid1, brk, g1)"
      using session_returns [OF "1.prems"] by blast
    show ?thesis
    proof (cases brk)
      case True
      with s \<open>eid \<le> n\<close> show ?thesis by (simp add: events_loop.simps [of n customer_ids rows eid])
    next
      case False
      from "1.IH" [OF \<open>eid \<le> n\<close> s refl refl refl False "1.prems"] s False \<open>eid \<le> n\<close>
      show ?thesis by (simp add: events_loop.simps [of n customer_ids rows eid])
    qed
  qed
qed

lemma events_loop_ids:
  assumes "events_loop n customer_ids rows eid session_counter g = Inr (rows', g')"
    and "map e_event_id rows = [1..eid - 1]" "1 \<le> eid" "eid \<le> n + 1"
  shows "map e_event_id rows' = [1..n]"
proof -
  let ?I = "\<lambda>rows eid. map e_event_id rows = [1..eid - 1] \<and> 1 \<le> eid \<and> eid \<le> n + 1"
  have "\<exists>eid'. ?I rows' eid' \<and> n < eid'"
  proof (rule events_loop_invariant [where I = ?I, OF _ assms(1)])
    fix rows eid session_counter g rows1 eid1 brk g1
    assume I: "?I rows eid" and le: "eid \<le> n"
      and s: "session n customer_ids rows eid session_counter g = Inr (rows1, eid1, brk, g1)"
    from session_ids [OF s] obtain new where new: "rows1 = rows @ new"
      "eid1 = eid + int (length new)"
      "map e_event_id new = map (\<lambda>k. eid + int k) [0..<length new]" by blast
    from I new have "map e_event_id rows1 = [1..eid1 - 1]"
      using ids_extend [of rows eid new] by simp
    with session_eid [OF s] I le show "?I rows1 eid1" by simp
  next
    show "?I rows eid" using assms by simp
  qed
  then obtain eid' where "map e_event_id rows' = [1..eid' - 1]" "eid' \<le> n + 1" "n < eid'"
    by blast
  moreover from this have "eid' - 1 = n" by simp
  ultimately show ?thesis by simp
qed

lemma funnel_ordered_append:
  "funnel_ordered xs \<Longrightarrow> funnel_ordered ys \<Longrightarrow> funnel_ordered (xs @ ys)"
  unfolding funnel_ordered_def by (simp add: ball_Un bex_Un)

lemma session_funnel:
  assumes "session n customer_ids rows eid session_counter g = Inr (rows', eid', brk, g')"
  shows "\<exists>new. rows' = rows @ new \<and> funnel_ordered new"
  using assms
  by (auto simp: session_def Let_def event_row_def funnel_ordered_def timedelta_minutes_def
           split: sum.splits prod.splits if_splits dest!: random_randint_range)

lemma events_loop_funnel:
  assumes "events_loop n customer_ids rows eid session_counter g = Inr (rows', g')"
    and "funnel_ordered rows"
  shows "funnel_ordered rows'"
proof -
  have "\<exists>eid'. funnel_ordered rows' \<and> n < eid'"
  proof (rule events_loop_invariant [where I = "\<lambda>rows eid. funnel_ordered rows", OF _ assms(1)])
    fix rows eid session_counter g rows1 eid1 brk g1
    assume "funnel_ordered rows"
      and "session n customer_ids rows eid session_counter g = Inr (rows1, eid1, brk, g1)"
    then show "funnel_ordered rows1"
      using session_funnel funnel_ordered_append by blast
  qed (rule assms(2))
  then show ?thesis by blast
qed

subsection \<open>A session evaluated\<close>

text \<open>
  One customer, room for four events, and a generator whose raw draws are all \<open>0\<close>:
  every funnel stage is taken, and the fourth event ends the loop through \<open>break\<close>.
\<close>

lemma format_06d_1: "format_06d 1 = ''000001''"
  by code_simp

lemma pareto_choice_single: "pareto_choice [x] alpha g = Inr (x, stl g)"
  by (simp add: pareto_choice_def random_paretovariate_int_def py_index_def)

lemma device_example: "random_choices DEVICE_TYPES DEVICE_WEIGHTS (sconst 0) = Inr (''desktop'', sconst 0)"
  by (simp add: random_choices_def random_random_def DEVICE_TYPES_def DEVICE_WEIGHTS_def)

lemma random_date_example0: "random_date DATE_START DATE_END (sconst 0) = Inr (DATE_START, sconst 0)"
  by (simp add: random_date_def random_randint_def delta_days_def timedelta_days_def DATE_START_value DATE_END_value)

lemma session_example:
  "session 4 [7] [] 1 1 (sconst 0) = Inr (example_session, 5, True, sconst 0)"
  by (simp add: session_def pareto_choice_single device_example random_date_example0
        format_06d_1 random_random_def random_randint_def timedelta_minutes_def example_session_def
        Let_def)

lemma generate_events_example:
  "generate_events (default_config\<lparr>NUM_EVENTS := 4\<rparr>) [example_customer] (sconst 0) =
     Inr (example_session, sconst 0)"
  by (simp add: generate_events_def example_customer_def events_loop.simps [of 4 "[7]" "[]" 1]
        session_example)

subsection \<open>Row count and event ids\<close>

text \<open>
  Claim C10. For a configured count \<open>NUM_EVENTS\<close> that is not negative,
  \<open>generate_events\<close> returns whenever there is at least one customer to choose from, and
  every list it returns has exactly \<open>NUM_EVENTS\<close> rows whose \<open>event_id\<close>s are
  \<open>1, 2, ..., NUM_EVENTS\<close> in this order: cutting a session short never leaves the list
  short of the configured count.
\<close>

theorem generate_events_count:
  assumes "0 \<le> NUM_EVENTS cfg"
  shows "(customers \<noteq> [] \<longrightarrow> (\<exists>rows g'. generate_events cfg customers g = Inr (rows, g'))) \<and>
         (\<forall>rows g'. generate_events cfg customers g = Inr (rows, g') \<longrightarrow>
            map e_event_id rows = [1..NUM_EVENTS cfg] \<and>
            int (length rows) = NUM_EVENTS cfg)"
proof (intro conjI allI impI)
  assume "customers \<noteq> []"
  then have "map c_customer_id customers \<noteq> []" by simp
  from events_loop_returns [OF this]
  show "\<exists>rows g'. generate_events cfg customers g = Inr (rows, g')"
    by (simp add: generate_events_def)
next
  fix rows g' assume r: "generate_events cfg customers g = Inr (rows, g')"
  then show ids: "map e_event_id rows = [1..NUM_EVENTS cfg]"
    using events_loop_ids [of "NUM_EVENTS cfg" "map c_customer_id customers" "[]" 1 1 g rows g']
      assms by (simp add: generate_events_def)
  then have "length rows = length [1..NUM_EVENTS cfg]" by (metis length_map)
  with assms show "int (length rows) = NUM_EVENTS cfg" by simp
qed

theorem generate_events_count_witness:
  "0 \<le> NUM_EVENTS (default_config\<lparr>NUM_EVENTS := 4\<rparr>) \<and>
   [example_customer] \<noteq> [] \<and>
   generate_events (default_config\<lparr>NUM_EVENTS := 4\<rparr>) [example_customer] (sconst 0) =
     Inr (example_session, sconst 0) \<and>
   map e_event_id example_session = [1..4] \<and>
   int (length example_session) = 4"
  using generate_events_count
          [of "default_config\<lparr>NUM_EVENTS := 4\<rparr>" "[example_customer]" "sconst 0"]
    generate_events_example
  by simp

subsection \<open>Funnel order\<close>

text \<open>
  Claim C4. In every list that \<open>generate_events\<close> returns, each \<open>checkout_start\<close> event
  has an \<open>add_to_cart\<close> event of the same \<open>session_id\<close> with a strictly earlier
  timestamp, and each \<open>purchase\<close> event has a \<open>checkout_start\<close> event of the same
  \<open>session_id\<close> with a strictly earlier timestamp.
\<close>

theorem generate_events_funnel:
  assumes "generate_events cfg customers g = Inr (rows, g')"
  shows "\<forall>r \<in> set rows.
           (e_event_type r = ''checkout_start'' \<longrightarrow>
              (\<exists>a \<in> set rows. e_session_id a = e_session_id r \<and>
                 e_event_type a = ''add_to_cart'' \<and> e_event_date a < e_event_date r)) \<and>
           (e_event_type r = ''purchase'' \<longrightarrow>
              (\<exists>c \<in> set rows. e_session_id c = e_session_id r \<and>
                 e_event_type c = ''checkout_start'' \<and> e_event_date c < e_event_date r))"
proof -
  have "funnel_ordered []" by (simp add: funnel_ordered_def)
  with assms have "funnel_ordered rows"
    unfolding generate_events_def by (rule events_loop_funnel)
  then show ?thesis by (simp add: funnel_ordered_def)
qed

theorem generate_events_funnel_witness:
  "generate_events (default_config\<lparr>NUM_EVENTS := 4\<rparr>) [example_customer] (sconst 0) =
     Inr (example_session, sconst 0) \<and>
   e_event_type (example_session ! 2) = ''checkout_start'' \<and>
   (\<exists>a \<in> set example_session. e_session_id a = e_session_id (example_session ! 2) \<and>
      e_event_type a = ''add_to_cart'' \<and> e_event_date a < e_event_date (example_session ! 2)) \<and>
   e_event_type (example_session ! 3) = ''purchase'' \<and>
   (\<exists>c \<in> set example_session. e_session_id c = e_session_id (example_session ! 3) \<and>
      e_event_type c = ''checkout_start'' \<and>
      e_event_date c < e_event_date (example_session ! 3))"
proof -
  note funnel = generate_events_funnel [OF generate_events_example]
  have mem: "example_session ! 2 \<in> set example_session"
    "example_session ! 3 \<in> set example_session"
    by (simp_all add: example_session_def)
  have ty: "e_event_type (example_session ! 2) = ''checkout_start''"
    "e_event_type (example_session ! 3) = ''purchase''"
    by (simp_all add: example_session_def event_row_def)
  from funnel mem ty generate_events_example show ?thesis by blast
qed

section \<open>The product generator\<close>

subsection \<open>Rounding and prices\<close>

lemma round_half_even_bounds: "\<lfloor>x\<rfloor> \<le> round_half_even x \<and> round_half_even x \<le> \<lfloor>x\<rfloor> + 1"
  by (simp add: round_half_even_def Let_def)

lemma round_half_even_of_int: "round_half_even (of_int n) = n"
  by (simp add: round_half_even_def)

lemma round_half_even_mono:
  assumes "x \<le> y"
  shows "round_half_even x \<le> round_half_even y"
proof (cases "\<lfloor>x\<rfloor> < \<lfloor>y\<rfloor>")
  case True
  then show ?thesis
    using round_half_even_bounds [of x] round_half_even_bounds [of y] by linarith
next
  case False
  with assms have eq: "\<lfloor>x\<rfloor> = \<lfloor>y\<rfloor>" using floor_mono [of x y] by linarith
  with assms have "x - of_int \<lfloor>x\<rfloor> \<le> y - of_int \<lfloor>y\<rfloor>" by simp
  with eq show ?thesis by (auto simp: round_half_even_def Let_def)
qed

lemma round2_mono: "x \<le> y \<Longrightarrow> round2 x \<le> round2 y"
  using round_half_even_mono [of "x * 100" "y * 100"]
  by (simp add: round2_def divide_right_mono)

lemma round2_hundredths: "round2 (of_int n / 100) = of_int n / 100"
  by (simp add: round2_def round_half_even_of_int)

lemma round2_5: "round2 5 = 5"
  using round2_hundredths [of 500] by simp

lemma round2_200: "round2 200 = 200"
  using round2_hundredths [of 20000] by simp

lemma round2_5_2: "round2 (5 / 2) = 5 / 2"
  using round2_hundredths [of 250] by simp

lemma cost_price_range:
  assumes "random_uniform 5 200 g = (x, g')"
  shows "5 \<le> round2 x \<and> round2 x \<le> 200"
proof -
  from random_uniform_range [OF _ assms] have "5 \<le> x" "x \<le> 200" by simp_all
  then show ?thesis using round2_mono [of 5 x] round2_mono [of x 200]
    by (simp add: round2_5 round2_200)
qed

lemma list_price_bound:
  assumes "5 \<le> cost" "1 / 2 \<le> f"
  shows "round2 (cost * (1 / 2)) \<le> round2 (cost * f) \<and> 5 / 2 \<le> round2 (cost * f)"
proof -
  have a: "cost * (1 / 2) \<le> cost * f" using assms by (intro mult_left_mono) auto
  have b: "5 / 2 \<le> cost * (1 / 2)" using assms by simp
  from a have "round2 (cost * (1 / 2)) \<le> round2 (cost * f)" by (rule round2_mono)
  moreover from b have "round2 (5 / 2) \<le> round2 (cost * (1 / 2))" by (rule round2_mono)
  ultimately show ?thesis by (simp add: round2_5_2)
qed

lemma adjectives_nonempty: "adjectives \<noteq> []"
  by (simp add: adjectives_def)

lemma taxonomy_product_Inr:
  "\<exists>row g'. taxonomy_product category subcat pid g = Inr (row, g') \<and>
     p_product_id row = pid \<and> p_category row = category \<and> p_subcategory row = subcat \<and>
     good_product row"
proof -
  obtain adj where adj: "random_choice adjectives g = Inr (adj, stl g)"
    using random_choice_Inr [OF adjectives_nonempty] by blast
  obtain x g2 where x: "random_uniform 5 200 (stl g) = (x, g2)" by (cases "random_uniform 5 200 (stl g)")
  obtain u g3 where u: "random_random g2 = (u, g3)" by (cases "random_random g2")
  obtain f g4 where f: "(if u < 3 / 100 then random_uniform (1 / 2) (9 / 10) g3
            else random_uniform (12 / 10) 3 g3) = (f, g4)"
    by (cases "if u < 3 / 100 then random_uniform (1 / 2) (9 / 10) g3
            else random_uniform (12 / 10) 3 g3")
  have "1 / 2 \<le> f"
  proof (cases "u < 3 / 100")
    case True
    with f random_uniform_range [of "1 / 2" "9 / 10" g3 f g4] show ?thesis by simp
  next
    case False
    with f random_uniform_range [of "12 / 10" 3 g3 f g4] show ?thesis by simp
  qed
  with cost_price_range [OF x] list_price_bound [of "round2 x" f] adj x u f
  show ?thesis by (simp add: taxonomy_product_def good_product_def Let_def)
qed

lemma CATEGORIES_keys_nonempty: "map fst CATEGORIES \<noteq> []"
  by (simp add: CATEGORIES_def)

lemma CATEGORIES_lookup:
  "cat \<in> set (map fst CATEGORIES) \<Longrightarrow> \<exists>subcats. map_of CATEGORIES cat = Some subcats \<and> subcats \<noteq> []"
  by (auto simp: CATEGORIES_def)

lemma topup_product_Inr:
  "\<exists>row g'. topup_product pid g = Inr (row, g') \<and> p_product_id row = pid \<and> good_product row"
proof -
  obtain cat where cat: "random_choice (map fst CATEGORIES) g = Inr (cat, stl g)"
    "cat \<in> set (map fst CATEGORIES)"
    using random_choice_Inr [OF CATEGORIES_keys_nonempty] by blast
  from CATEGORIES_lookup [OF cat(2)] obtain subcats
    where subcats: "map_of CATEGORIES cat = Some subcats" "subcats \<noteq> []" by blast
  obtain subcat where subcat: "random_choice subcats (stl g) = Inr (subcat, stl (stl g))"
    using random_choice_Inr [OF subcats(2)] by blast
  obtain adj where adj: "random_choice adjectives (stl (stl g)) = Inr (adj, stl (stl (stl g)))"
    using random_choice_Inr [OF adjectives_nonempty] by blast
  obtain x g4 where x: "random_uniform 5 200 (stl (stl (stl g))) = (x, g4)"
    by (cases "random_uniform 5 200 (stl (stl (stl g)))")
  obtain f g5 where f: "random_uniform (12 / 10) 3 g4 = (f, g5)"
    by (cases "random_uniform (12 / 10) 3 g4")
  from random_uniform_range [OF _ f] have "1 / 2 \<le> f" by simp
  with cost_price_range [OF x] list_price_bound [of "round2 x" f] cat subcats subcat adj x f
  show ?thesis by (simp add: topup_product_def good_product_def Let_def)
qed

subsection \<open>The taxonomy pass and the top-up loop\<close>

declare topup_loop.simps [simp del]

lemma per_subcat_loop_Inr:
  "\<exists>new pid' g'. per_subcat_loop k category subcat rows pid g = Inr (rows @ new, pid', g') \<and>
     map product_slot new = replicate k (category, subcat) \<and>
     (\<forall>p \<in> set new. good_product p)"
proof (induction k arbitrary: rows pid g)
  case 0
  then show ?case by simp
next
  case (Suc k)
  obtain row g1 where row: "taxonomy_product category subcat pid g = Inr (row, g1)"
    "p_category row = category" "p_subcategory row = subcat" "good_product row"
    using taxonomy_product_Inr [of category subcat pid g] by blast
  from Suc.IH [of "rows @ [row]" "pid + 1" g1] obtain new pid' g'
    where new: "per_subcat_loop k category subcat (rows @ [row]) (pid + 1) g1 =
        Inr ((rows @ [row]) @ new, pid', g')"
      "map product_slot new = replicate k (category, subcat)"
      "\<forall>p \<in> set new. good_product p" by blast
  have "per_subcat_loop (Suc k) category subcat rows pid g = Inr (rows @ (row # new), pid', g')"
    using row(1) new(1) by simp
  moreover have "map product_slot (row # new) = replicate (Suc k) (category, subcat)"
    using row(2,3) new(2) by (simp add: product_slot_def)
  moreover have "\<forall>p \<in> set (row # new). good_product p" using row(4) new(3) by simp
  ultimately show ?case by blast
qed

lemma subcats_loop_Inr:
  "\<exists>new pid' g'. subcats_loop per_subcat category subcats rows pid g = Inr (rows @ new, pid', g') \<and>
     map product_slot new =
       concat (map (\<lambda>subcat. replicate (nat per_subcat) (category, subcat)) subcats) \<and>
     (\<forall>p \<in> set new. good_product p)"
proof (induction subcats arbitrary: rows pid g)
  case Nil
  then show ?case by simp
next
  case (Cons subcat subcats)
  obtain new1 pid1 g1
    where new1: "per_subcat_loop (nat per_subcat) category subcat rows pid g =
        Inr (rows @ new1, pid1, g1)"
      "map product_slot new1 = replicate (nat per_subcat) (category, subcat)"
      "\<forall>p \<in> set new1. good_product p"
    using per_subcat_loop_Inr by blast
  from Cons.IH [of "rows @ new1" pid1 g1] obtain new2 pid2 g2
    where new2: "subcats_loop per_subcat category subcats (rows @ new1) pid1 g1 =
        Inr ((rows @ new1) @ new2, pid2, g2)"
      "map product_slot new2 =
         concat (map (\<lambda>subcat. replicate (nat per_subcat) (category, subcat)) subcats)"
      "\<forall>p \<in> set new2. good_product p" by blast
  have "subcats_loop per_subcat category (subcat # subcats) rows pid g =
      Inr (rows @ (new1 @ new2), pid2, g2)"
    using new1(1) new2(1) by simp
  moreover have "map product_slot (new1 @ new2) =
      concat (map (\<lambda>subcat. replicate (nat per_subcat) (category, subcat)) (subcat # subcats))"
    using new1(2) new2(2) by simp
  moreover have "\<forall>p \<in> set (new1 @ new2). good_product p" using new1(3) new2(3) by auto
  ultimately show ?case by blast
qed

lemma categories_loop_Inr:
  assumes "CATEGORIES \<noteq> []"
  shows "\<forall>(category, subcats) \<in> set categories. length subcats = m \<Longrightarrow> 0 < m \<Longrightarrow>
    \<exists>new pid' g'. categories_loop n categories rows pid g = Inr (rows @ new, pid', g') \<and>
     map product_slot new =
       taxonomy_slots (nat (n div (int (length CATEGORIES) * int m))) categories \<and>
     (\<forall>p \<in> set new. good_product p)"
proof (induction categories arbitrary: rows pid g)
  case Nil
  then show ?case by (simp add: taxonomy_slots_def)
next
  case (Cons c categories)
  obtain category subcats where c: "c = (category, subcats)" by (cases c)
  with Cons.prems have len: "length subcats = m" by simp
  let ?per = "n div (int (length CATEGORIES) * int m)"
  have div: "int (length CATEGORIES) * int m \<noteq> 0" using assms Cons.prems(2) by simp
  obtain new1 pid1 g1
    where new1: "subcats_loop ?per category subcats rows pid g = Inr (rows @ new1, pid1, g1)"
      "map product_slot new1 =
         concat (map (\<lambda>subcat. replicate (nat ?per) (category, subcat)) subcats)"
      "\<forall>p \<in> set new1. good_product p"
    using subcats_loop_Inr by blast
  from Cons.IH [of "rows @ new1" pid1 g1] Cons.prems obtain new2 pid2 g2
    where new2: "categories_loop n categories (rows @ new1) pid1 g1 =
        Inr ((rows @ new1) @ new2, pid2, g2)"
      "map product_slot new2 = taxonomy_slots (nat ?per) categories"
      "\<forall>p \<in> set new2. good_product p" by auto
  have "categories_loop n (c # categories) rows pid g = Inr (rows @ (new1 @ new2), pid2, g2)"
    using c len div new1(1) new2(1) by (simp add: Let_def)
  moreover have "map product_slot (new1 @ new2) = taxonomy_slots (nat ?per) (c # categories)"
    using c new1(2) new2(2) by (simp add: taxonomy_slots_def)
  moreover have "\<forall>p \<in> set (new1 @ new2). good_product p" using new1(3) new2(3) by auto
  ultimately show ?case by blast
qed

lemma length_taxonomy_slots_CATEGORIES: "length (taxonomy_slots per CATEGORIES) = 20 * per"
  by (simp add: taxonomy_slots_def CATEGORIES_def)

lemma taxonomy_pass:
  "\<exists>rows pid' g'. categories_loop n CATEGORIES [] 1 g = Inr (rows, pid', g') \<and>
     map product_slot rows = taxonomy_slots (nat (n div (4 * 5))) CATEGORIES \<and>
     length rows = 20 * nat (n div (4 * 5)) \<and>
     (\<forall>p \<in> set rows. good_product p)"
proof -
  have "CATEGORIES \<noteq> []" by (simp add: CATEGORIES_def)
  moreover have "\<forall>(category, subcats) \<in> set CATEGORIES. length subcats = 5"
    by (simp add: CATEGORIES_def)
  ultimately obtain new pid' g'
    where new: "categories_loop n CATEGORIES [] 1 g = Inr ([] @ new, pid', g')"
      "map product_slot new = taxonomy_slots (nat (n div (int (length CATEGORIES) * int 5))) CATEGORIES"
      "\<forall>p \<in> set new. good_product p"
    using categories_loop_Inr [of CATEGORIES 5 n "[]" 1 g] by auto
  have "length CATEGORIES = 4" by (simp add: CATEGORIES_def)
  with new(2) have slots: "map product_slot new = taxonomy_slots (nat (n div (4 * 5))) CATEGORIES"
    by simp
  have "length new = length (map product_slot new)" by simp
  also have "\<dots> = 20 * nat (n div (4 * 5))"
    by (simp only: slots length_taxonomy_slots_CATEGORIES)
  finally have "length new = 20 * nat (n div (4 * 5))" .
  with new(1,3) slots show ?thesis by auto
qed

lemma topup_loop_Inr:
  "\<exists>new g'. topup_loop n rows pid g = Inr (rows @ new, g') \<and>
     length (rows @ new) = max (length rows) (nat n) \<and>
     (\<forall>p \<in> set new. good_product p)"
proof (induction n rows pid g rule: topup_loop.induct)
  case (1 n rows pid g)
  show ?case
  proof (cases "int (length rows) < n")
    case False
    then have "topup_loop n rows pid g = Inr (rows @ [], g)" by (simp add: topup_loop.simps)
    moreover from False have "length (rows @ []) = max (length rows) (nat n)" by simp
    moreover have "\<forall>p \<in> set []. good_product p" by simp
    ultimately show ?thesis by blast
  next
    case True
    obtain row g1 where row: "topup_product pid g = Inr (row, g1)" "good_product row"
      using topup_product_Inr [of pid g] by blast
    from "1.IH" [OF True row(1) refl] obtain new g'
      where new: "topup_loop n (rows @ [row]) (pid + 1) g1 = Inr ((rows @ [row]) @ new, g')"
        "length ((rows @ [row]) @ new) = max (length (rows @ [row])) (nat n)"
        "\<forall>p \<in> set new. good_product p" by blast
    have "topup_loop n rows pid g = Inr (rows @ (row # new), g')"
      using True row(1) new(1) by (simp add: topup_loop.simps [of n rows])
    moreover have "length (rows @ (row # new)) = max (length rows) (nat n)"
      using new(2) True by simp
    moreover have "\<forall>p \<in> set (row # new). good_product p" using row(2) new(3) by simp
    ultimately show ?thesis by blast
  qed
qed

lemma generate_products_Inr:
  "\<exists>rows pid g1 new g'.
     categories_loop (NUM_PRODUCTS cfg) CATEGORIES [] 1 g = Inr (rows, pid, g1) \<and>
     map product_slot rows = taxonomy_slots (nat (NUM_PRODUCTS cfg div (4 * 5))) CATEGORIES \<and>
     length rows = 20 * nat (NUM_PRODUCTS cfg div (4 * 5)) \<and>
     topup_loop (NUM_PRODUCTS cfg) rows pid g1 = Inr (rows @ new, g') \<and>
     generate_products cfg g = Inr (rows @ new, g') \<and>
     length (rows @ new) = max (length rows) (nat (NUM_PRODUCTS cfg)) \<and>
     (\<forall>p \<in> set (rows @ new). good_product p)"
proof -
  obtain rows pid g1 where t: "categories_loop (NUM_PRODUCTS cfg) CATEGORIES [] 1 g = Inr (rows, pid, g1)"
    "map product_slot rows = taxonomy_slots (nat (NUM_PRODUCTS cfg div (4 * 5))) CATEGORIES"
    "length rows = 20 * nat (NUM_PRODUCTS cfg div (4 * 5))"
    "\<forall>p \<in> set rows. good_product p"
    using taxonomy_pass by blast
  obtain new g' where u: "topup_loop (NUM_PRODUCTS cfg) rows pid g1 = Inr (rows @ new, g')"
    "length (rows @ new) = max (length rows) (nat (NUM_PRODUCTS cfg))"
    "\<forall>p \<in> set new. good_product p"
    using topup_loop_Inr by blast
  have "generate_products cfg g = Inr (rows @ new, g')"
    using t(1) u(1) by (simp add: generate_products_def)
  moreover have "\<forall>p \<in> set (rows @ new). good_product p" using t(4) u(3) by auto
  ultimately show ?thesis using t u by blast
qed

text \<open>
  Claim C8. For a configured count \<open>NUM_PRODUCTS\<close> that is not negative, the taxonomy pass
  of \<open>generate_products\<close> returns \<open>NUM_PRODUCTS // (4 * 5)\<close> consecutive rows for each
  subcategory of each category, in the order of the taxonomy, at most \<open>NUM_PRODUCTS\<close> rows
  in total; \<open>generate_products\<close> returns these rows followed by the rows of the top-up
  loop, exactly \<open>NUM_PRODUCTS\<close> rows. With the default \<open>NUM_PRODUCTS = 200\<close> the taxonomy
  pass yields exactly 200 rows, the guard of the top-up loop is false on entry, and the
  result is the list of the taxonomy pass with the generator as that pass left it.
\<close>

theorem generate_products_count:
  "(0 \<le> NUM_PRODUCTS cfg \<longrightarrow>
      (\<exists>rows pid g1 rows' g'.
         categories_loop (NUM_PRODUCTS cfg) CATEGORIES [] 1 g = Inr (rows, pid, g1) \<and>
         map product_slot rows =
           taxonomy_slots (nat (NUM_PRODUCTS cfg div (4 * 5))) CATEGORIES \<and>
         int (length rows) = 4 * 5 * (NUM_PRODUCTS cfg div (4 * 5)) \<and>
         int (length rows) \<le> NUM_PRODUCTS cfg \<and>
         generate_products cfg g = Inr (rows', g') \<and>
         take (length rows) rows' = rows \<and>
         int (length rows') = NUM_PRODUCTS cfg)) \<and>
   (\<exists>rows pid g1.
      categories_loop (NUM_PRODUCTS default_config) CATEGORIES [] 1 g = Inr (rows, pid, g1) \<and>
      length rows = 200 \<and>
      \<not> int (length rows) < NUM_PRODUCTS default_config \<and>
      generate_products default_config g = Inr (rows, g1))"
proof (intro conjI impI)
  assume nonneg: "0 \<le> NUM_PRODUCTS cfg"
  let ?n = "NUM_PRODUCTS cfg"
  from generate_products_Inr [of cfg g] obtain rows pid g1 new g'
    where r: "categories_loop ?n CATEGORIES [] 1 g = Inr (rows, pid, g1)"
      "map product_slot rows = taxonomy_slots (nat (?n div (4 * 5))) CATEGORIES"
      "length rows = 20 * nat (?n div (4 * 5))"
      "generate_products cfg g = Inr (rows @ new, g')"
      "length (rows @ new) = max (length rows) (nat ?n)"
    by blast
  from nonneg have d: "0 \<le> ?n div (4 * 5)" by simp
  have "20 * (?n div 20) + ?n mod 20 = ?n" by simp
  moreover have "0 \<le> ?n mod 20" by simp
  ultimately have le: "20 * (?n div 20) \<le> ?n" by linarith
  from r(3) d have len: "int (length rows) = 4 * 5 * (?n div (4 * 5))" by simp
  with le have le': "int (length rows) \<le> ?n" by simp
  with r(5) nonneg have "int (length (rows @ new)) = ?n" by simp
  moreover have "take (length rows) (rows @ new) = rows" by simp
  ultimately show "\<exists>rows pid g1 rows' g'.
         categories_loop (NUM_PRODUCTS cfg) CATEGORIES [] 1 g = Inr (rows, pid, g1) \<and>
         map product_slot rows =
           taxonomy_slots (nat (NUM_PRODUCTS cfg div (4 * 5))) CATEGORIES \<and>
         int (length rows) = 4 * 5 * (NUM_PRODUCTS cfg div (4 * 5)) \<and>
         int (length rows) \<le> NUM_PRODUCTS cfg \<and>
         generate_products cfg g = Inr (rows', g') \<and>
         take (length rows) rows' = rows \<and>
         int (length rows') = NUM_PRODUCTS cfg"
    using r(1,2,4) len le' by blast
next
  have n: "NUM_PRODUCTS default_config = 200" by (simp add: default_config_def)
  from taxonomy_pass [of 200 g] obtain rows pid g1
    where r: "categories_loop 200 CATEGORIES [] 1 g = Inr (rows, pid, g1)"
      "length rows = 20 * nat (200 div (4 * 5))" by blast
  from r(2) have len: "length rows = 200" by simp
  then have "topup_loop 200 rows pid g1 = Inr (rows, g1)" by (simp add: topup_loop.simps)
  with r(1) have "generate_products default_config g = Inr (rows, g1)"
    by (simp add: generate_products_def n)
  with r(1) len n show "\<exists>rows pid g1.
      categories_loop (NUM_PRODUCTS default_config) CATEGORIES [] 1 g = Inr (rows, pid, g1) \<and>
      length rows = 200 \<and>
      \<not> int (length rows) < NUM_PRODUCTS default_config \<and>
      generate_products default_config g = Inr (rows, g1)"
    by auto
qed

theorem generate_products_count_witness:
  "0 \<le> NUM_PRODUCTS (default_config\<lparr>NUM_PRODUCTS := 23\<rparr>) \<and>
   (\<exists>rows pid g1 rows' g'.
      categories_loop 23 CATEGORIES [] 1 (sconst 0) = Inr (rows, pid, g1) \<and>
      length rows = 20 \<and>
      generate_products (default_config\<lparr>NUM_PRODUCTS := 23\<rparr>) (sconst 0) = Inr (rows', g') \<and>
      take 20 rows' = rows \<and> length rows' = 23)"
  using generate_products_count [of "default_config\<lparr>NUM_PRODUCTS := 23\<rparr>" "sconst 0"]
  by auto

section \<open>The customer generator\<close>

lemma FIRST_NAMES_nonempty: "FIRST_NAMES \<noteq> []"
  by (simp add: FIRST_NAMES_def)

lemma LAST_NAMES_nonempty: "LAST_NAMES \<noteq> []"
  by (simp add: LAST_NAMES_def)

lemma CITIES_nonempty: "CITIES \<noteq> []"
  by (simp add: CITIES_def)

lemma segment_choices_no_error: "random_choices SEGMENTS SEGMENT_WEIGHTS g \<noteq> Inl e"
  using random_choices_Inr [of SEGMENT_WEIGHTS SEGMENTS g]
  by (auto simp: SEGMENTS_def SEGMENT_WEIGHTS_def)

lemma make_email_no_error: "make_email md5_hexdigest first last' idx g \<noteq> Inl e"
  by (simp add: make_email_def Let_def random_choice_def)

lemma customer_row_no_error: "customer_row md5_hexdigest i g \<noteq> Inl e"
  by (auto simp: customer_row_def Let_def random_choice_no_error FIRST_NAMES_nonempty
        LAST_NAMES_nonempty CITIES_nonempty make_email_no_error random_date_no_error
        segment_choices_no_error split: sum.splits prod.splits if_splits)

lemma customer_row_id:
  "customer_row md5_hexdigest i g = Inr (row, g') \<Longrightarrow> c_customer_id row = i"
  by (auto simp: customer_row_def Let_def split: sum.splits prod.splits if_splits)

lemma customers_loop_Inr:
  "\<exists>new g'. customers_loop md5_hexdigest ids rows g = Inr (rows @ new, g') \<and>
     map c_customer_id new = ids"
proof (induction ids arbitrary: rows g)
  case Nil
  then show ?case by simp
next
  case (Cons i ids)
  obtain row g1 where row: "customer_row md5_hexdigest i g = Inr (row, g1)"
    using customer_row_no_error [of md5_hexdigest i g]
    by (cases "customer_row md5_hexdigest i g") auto
  from Cons.IH [of "rows @ [row]" g1] obtain new g'
    where new: "customers_loop md5_hexdigest ids (rows @ [row]) g1 = Inr ((rows @ [row]) @ new, g')"
      "map c_customer_id new = ids" by blast
  have a: "customers_loop md5_hexdigest (i # ids) rows g = Inr (rows @ (row # new), g')"
    using row new(1) by simp
  have b: "map c_customer_id (row # new) = i # ids"
    using customer_row_id [OF row] new(2) by simp
  show ?case by (rule exI [of _ "row # new"], rule exI [of _ g']) (simp only: a b)
qed

lemma generate_customers_Inr:
  "\<exists>rows g'. generate_customers md5_hexdigest cfg g = Inr (rows, g') \<and>
     map c_customer_id rows = [1..NUM_CUSTOMERS cfg]"
  using customers_loop_Inr [of md5_hexdigest "[1..NUM_CUSTOMERS cfg]" "[]" g]
  by (simp add: generate_customers_def)

section \<open>The order generator\<close>

subsection \<open>The price dictionary, one order row, the main loop\<close>


lemma fold_prices_defined:
  "pid \<in> p_product_id ` set products \<or> m pid \<noteq> None \<Longrightarrow>
   fold (\<lambda>p m. m(p_product_id p \<mapsto> p_list_price p)) products m pid \<noteq> None"
proof (induction products arbitrary: m)
  case Nil
  then show ?case by simp
next
  case (Cons q products)
  have "pid \<in> p_product_id ` set products \<or> (m(p_product_id q \<mapsto> p_list_price q)) pid \<noteq> None"
    using Cons.prems by auto
  from Cons.IH [of "m(p_product_id q \<mapsto> p_list_price q)", OF this] show ?case by simp
qed


lemma product_prices_of_defined:
  "pid \<in> set (map p_product_id products) \<Longrightarrow> product_prices_of products pid \<noteq> None"
  using fold_prices_defined [of pid products Map.empty] by (simp add: product_prices_of_def)

lemma seasonal_date_error:
  "seasonal_date depth DATE_START DATE_END g = Inl e \<Longrightarrow> e = RecursionError"
proof (induction depth arbitrary: g)
  case 0
  then show ?case by simp
next
  case (Suc depth)
  then show ?case
    by (auto simp: Let_def random_date_no_error split: sum.splits prod.splits if_splits)
qed

lemma quantity_choices_no_error:
  "random_choices [1, 2, 3, 4, 5 :: int] [50, 25, 15, 7, 3] g \<noteq> Inl e"
  using random_choices_Inr [of "[50, 25, 15, 7, 3]" "[1, 2, 3, 4, 5 :: int]" g] by auto

lemma payment_choices_no_error: "random_choices PAYMENT_METHODS PAYMENT_WEIGHTS g \<noteq> Inl e"
  using random_choices_Inr [of PAYMENT_WEIGHTS PAYMENT_METHODS g]
  by (auto simp: PAYMENT_METHODS_def PAYMENT_WEIGHTS_def)

lemma order_row_facts:
  assumes "order_row depth customer_ids product_ids product_prices i g = Inr (row, g')"
  shows "o_order_id row = i \<and> order_row_ok customer_ids product_ids product_prices row"
  using assms
  by (auto simp: order_row_def order_row_ok_def Let_def
        split: sum.splits prod.splits option.splits if_splits
        dest!: pareto_choice_mem random_choice_mem random_choices_mem seasonal_date_range)

lemma order_row_error:
  assumes "customer_ids \<noteq> []" "product_ids \<noteq> []"
    "\<forall>pid \<in> set product_ids. product_prices pid \<noteq> None"
    "order_row depth customer_ids product_ids product_prices i g = Inl e"
  shows "e = RecursionError"
  using assms pareto_choice_no_error [OF assms(1)] random_choice_no_error [OF assms(2)]
  by (auto simp: order_row_def Let_def quantity_choices_no_error payment_choices_no_error
        split: sum.splits prod.splits option.splits if_splits
        dest: seasonal_date_error dest!: random_choice_mem)

lemma orders_loop_facts:
  "orders_loop depth customer_ids product_ids product_prices ids rows g = Inr (rows', g') \<Longrightarrow>
   \<exists>new. rows' = rows @ new \<and> map o_order_id new = ids \<and>
     (\<forall>r \<in> set new. order_row_ok customer_ids product_ids product_prices r)"
proof (induction ids arbitrary: rows g)
  case Nil
  then show ?case by simp
next
  case (Cons i ids)
  from Cons.prems obtain row g1
    where row: "order_row depth customer_ids product_ids product_prices i g = Inr (row, g1)"
      and rest: "orders_loop depth customer_ids product_ids product_prices ids (rows @ [row]) g1 =
        Inr (rows', g')"
    by (auto split: sum.splits)
  from Cons.IH [OF rest] obtain new where new: "rows' = (rows @ [row]) @ new"
    "map o_order_id new = ids"
    "\<forall>r \<in> set new. order_row_ok customer_ids product_ids product_prices r" by blast
  have a: "rows' = rows @ (row # new)" using new(1) by simp
  have b: "map o_order_id (row # new) = i # ids" using order_row_facts [OF row] new(2) by simp
  have c: "\<forall>r \<in> set (row # new). order_row_ok customer_ids product_ids product_prices r"
    using order_row_facts [OF row] new(3) by simp
  show ?case by (rule exI [of _ "row # new"]) (intro conjI a b c)
qed

lemma orders_loop_error:
  assumes "customer_ids \<noteq> []" "product_ids \<noteq> []"
    "\<forall>pid \<in> set product_ids. product_prices pid \<noteq> None"
  shows "orders_loop depth customer_ids product_ids product_prices ids rows g = Inl e \<Longrightarrow>
    e = RecursionError"
proof (induction ids arbitrary: rows g)
  case Nil
  then show ?case by simp
next
  case (Cons i ids)
  show ?case
  proof (cases "order_row depth customer_ids product_ids product_prices i g")
    case (Inl e')
    with Cons.prems have "e' = e" by simp
    with Inl order_row_error [OF assms] show ?thesis by blast
  next
    case (Inr r)
    obtain row g1 where "r = (row, g1)" by (cases r)
    with Inr Cons.prems Cons.IH show ?thesis by simp
  qed
qed

subsection \<open>The duplicated rows\<close>

lemma py_index_nonneg:
  "0 \<le> i \<Longrightarrow> py_index xs i = Inr x \<Longrightarrow> i < int (length xs) \<and> x = xs ! nat i"
  by (auto simp: py_index_def split: if_splits)

lemma duplicate_loop_facts:
  "duplicate_loop duplicate_target offs rows = Inr rows' \<Longrightarrow> 0 \<le> duplicate_target \<Longrightarrow>
   \<forall>off \<in> set offs. 0 \<le> off \<Longrightarrow>
   \<exists>new. rows' = rows @ new \<and> length new = length offs \<and> set new \<subseteq> set rows \<and>
     (\<forall>k < length offs. duplicate_target + offs ! k < int (length rows) + int k \<and>
        new ! k = rows' ! nat (duplicate_target + offs ! k))"
proof (induction offs arbitrary: rows)
  case Nil
  then show ?case by simp
next
  case (Cons off offs)
  from Cons.prems(1) obtain src
    where src: "py_index rows (duplicate_target + off) = Inr src"
      and rest: "duplicate_loop duplicate_target offs (rows @ [src]) = Inr rows'"
    by (auto split: sum.splits)
  from Cons.prems(2,3) have "0 \<le> duplicate_target + off" by simp
  from py_index_nonneg [OF this src]
  have i: "duplicate_target + off < int (length rows)"
    "src = rows ! nat (duplicate_target + off)" by simp_all
  then have mem: "src \<in> set rows" using \<open>0 \<le> duplicate_target + off\<close> by simp
  from Cons.IH [OF rest Cons.prems(2)] Cons.prems(3) obtain new
    where new: "rows' = (rows @ [src]) @ new" "length new = length offs"
      "set new \<subseteq> set (rows @ [src])"
      "\<forall>k < length offs. duplicate_target + offs ! k < int (length (rows @ [src])) + int k \<and>
         new ! k = rows' ! nat (duplicate_target + offs ! k)"
    by auto
  have a: "rows' = rows @ (src # new)" using new(1) by simp
  have b: "length (src # new) = length (off # offs)" using new(2) by simp
  have c: "set (src # new) \<subseteq> set rows" using new(3) mem by auto
  have d: "\<forall>k < length (off # offs).
      duplicate_target + (off # offs) ! k < int (length rows) + int k \<and>
      (src # new) ! k = rows' ! nat (duplicate_target + (off # offs) ! k)"
  proof (intro allI impI)
    fix k assume k: "k < length (off # offs)"
    show "duplicate_target + (off # offs) ! k < int (length rows) + int k \<and>
      (src # new) ! k = rows' ! nat (duplicate_target + (off # offs) ! k)"
    proof (cases k)
      case 0
      have "nat (duplicate_target + off) < length rows"
        using i(1) \<open>0 \<le> duplicate_target + off\<close> by linarith
      then have "rows' ! nat (duplicate_target + off) = rows ! nat (duplicate_target + off)"
        by (simp add: a nth_append)
      with 0 i show ?thesis by simp
    next
      case (Suc j)
      with k new(4) show ?thesis by auto
    qed
  qed
  show ?case by (rule exI [of _ "src # new"]) (intro conjI a b c d)
qed

lemma duplicate_loop_returns:
  "0 \<le> duplicate_target \<Longrightarrow>
   \<forall>off \<in> set offs. 0 \<le> off \<and> duplicate_target + off < int (length rows) \<Longrightarrow>
   \<exists>rows'. duplicate_loop duplicate_target offs rows = Inr rows'"
proof (induction offs arbitrary: rows)
  case Nil
  then show ?case by simp
next
  case (Cons off offs)
  from Cons.prems have i: "0 \<le> duplicate_target + off"
    "duplicate_target + off < int (length rows)" by simp_all
  have src: "py_index rows (duplicate_target + off) = Inr (rows ! nat (duplicate_target + off))"
    using i by (rule py_index_Inr)
  have "\<forall>off \<in> set offs. 0 \<le> off \<and>
      duplicate_target + off < int (length (rows @ [rows ! nat (duplicate_target + off)]))"
    using Cons.prems(2) by auto
  from Cons.IH [OF Cons.prems(1), of "rows @ [rows ! nat (duplicate_target + off)]"] this src
  show ?case by auto
qed

lemma upto_0_4: "[0..4] = [0, 1, 2, 3, 4 :: int]"
  by code_simp

lemma generate_orders_facts:
  assumes "generate_orders depth cfg customers products g = Inr (rows, g')"
  shows "\<exists>duplicate_target g1 base new.
     random_randint 8050 8150 g = Inr (duplicate_target, g1) \<and>
     8050 \<le> duplicate_target \<and> duplicate_target \<le> 8150 \<and>
     duplicate_target < int (length base) \<and>
     rows = base @ new \<and> map o_order_id base = [1..NUM_ORDERS cfg] \<and>
     length new = 5 \<and> set new \<subseteq> set base \<and>
     (\<forall>k < 5. new ! k = rows ! (nat duplicate_target + k)) \<and>
     (\<forall>r \<in> set base. order_row_ok (map c_customer_id customers) (map p_product_id products)
         (product_prices_of products) r)"
proof -
  let ?cids = "map c_customer_id customers" and ?pids = "map p_product_id products"
    and ?prices = "product_prices_of products"
  from assms obtain dt g1 base
    where dt: "random_randint 8050 8150 g = Inr (dt, g1)"
      and loop: "orders_loop depth ?cids ?pids ?prices [1..NUM_ORDERS cfg] [] g1 = Inr (base, g')"
      and dup: "duplicate_loop dt [0..4] base = Inr rows"
    by (auto simp: generate_orders_def Let_def split: sum.splits)
  from random_randint_range [OF dt] have r: "8050 \<le> dt" "dt \<le> 8150" by simp_all
  from orders_loop_facts [OF loop]
  have base: "map o_order_id base = [1..NUM_ORDERS cfg]"
    "\<forall>r \<in> set base. order_row_ok ?cids ?pids ?prices r" by auto
  from duplicate_loop_facts [OF dup] r(1) obtain new
    where new: "rows = base @ new" "length new = length [0..4 :: int]" "set new \<subseteq> set base"
      "\<forall>k < length [0..4 :: int]. dt + [0..4] ! k < int (length base) + int k \<and>
         new ! k = rows ! nat (dt + [0..4] ! k)"
    by (auto simp: upto_0_4)
  from new(2) have len: "length new = 5" by (simp add: upto_0_4)
  have "(0::nat) < length [0..4 :: int]" by (simp add: upto_0_4)
  from new(4) [rule_format, OF this] have lt: "dt < int (length base)" by (simp add: upto_0_4)
  have nth: "\<forall>k < 5. new ! k = rows ! (nat dt + k)"
  proof (intro allI impI)
    fix k :: nat assume k: "k < 5"
    then have "[0..4] ! k = int k"
      by (auto simp: upto_0_4 less_Suc_eq numeral_eq_Suc)
    moreover from k have "k < length [0..4 :: int]" by (simp add: upto_0_4)
    from new(4) [rule_format, OF this] have "new ! k = rows ! nat (dt + [0..4] ! k)" by simp
    moreover have "nat (dt + int k) = nat dt + k" using r(1) by simp
    ultimately show "new ! k = rows ! (nat dt + k)" by simp
  qed
  show ?thesis
    by (rule exI [of _ dt], rule exI [of _ g1], rule exI [of _ base], rule exI [of _ new])
       (intro conjI dt r lt new(1) base len new(3) nth)
qed

lemma generate_orders_error:
  assumes "customers \<noteq> []" "products \<noteq> []" "8155 \<le> NUM_ORDERS cfg"
    and err: "generate_orders depth cfg customers products g = Inl e"
  shows "e = RecursionError"
proof -
  let ?cids = "map c_customer_id customers" and ?pids = "map p_product_id products"
    and ?prices = "product_prices_of products"
  obtain dt where dt: "random_randint 8050 8150 g = Inr (dt, stl g)" "8050 \<le> dt" "dt \<le> 8150"
    using random_randint_Inr [of 8050 8150 g] by auto
  have ne: "?cids \<noteq> []" "?pids \<noteq> []" using assms(1,2) by simp_all
  have defined: "\<forall>pid \<in> set ?pids. ?prices pid \<noteq> None"
    using product_prices_of_defined by blast
  show ?thesis
  proof (cases "orders_loop depth ?cids ?pids ?prices [1..NUM_ORDERS cfg] [] (stl g)")
    case (Inl e')
    with err dt(1) have "e' = e" by (simp add: generate_orders_def)
    with Inl orders_loop_error [OF ne defined] show ?thesis by blast
  next
    case (Inr r)
    obtain base g2 where r: "r = (base, g2)" by (cases r)
    from orders_loop_facts [OF Inr [unfolded r]]
    have "map o_order_id base = [1..NUM_ORDERS cfg]" by simp
    then have "length base = length [1..NUM_ORDERS cfg]" by (metis length_map)
    with assms(3) have len: "8155 \<le> int (length base)" by simp
    have "\<forall>off \<in> set [0..4]. 0 \<le> off \<and> dt + off < int (length base)"
      using dt(3) len by auto
    from duplicate_loop_returns [OF _ this] dt(2)
    obtain rows' where "duplicate_loop dt [0..4] base = Inr rows'" by auto
    with err dt(1) Inr r show ?thesis by (simp add: generate_orders_def)
  qed
qed

lemma generate_orders_length:
  assumes "generate_orders depth cfg customers products g = Inr (rows, g')"
  shows "int (length rows) = NUM_ORDERS cfg + 5 \<and> 1 \<le> NUM_ORDERS cfg"
proof -
  from generate_orders_facts [OF assms] obtain base new
    where f: "rows = base @ new" "map o_order_id base = [1..NUM_ORDERS cfg]"
      "length new = 5" "set new \<subseteq> set base" by blast
  from f(3,4) have "base \<noteq> []" by auto
  with f(2) have "[1..NUM_ORDERS cfg] \<noteq> []" by auto
  then have n: "1 \<le> NUM_ORDERS cfg" by (cases "1 \<le> NUM_ORDERS cfg") simp_all
  from f(2) have "length base = length [1..NUM_ORDERS cfg]" by (metis length_map)
  with n f(1,3) show ?thesis by simp
qed

subsection \<open>Runs on the example generator\<close>

lemma seasonal_date_example:
  "seasonal_date (Suc 0) DATE_START DATE_END example_rng =
     Inr (DATE_START + timedelta_days 594, example_rng)"
  by (simp add: random_date_example_rng month_of_example)

lemma order_row_sconst:
  assumes "customer_ids \<noteq> []" "product_ids \<noteq> []"
    "\<forall>pid \<in> set product_ids. product_prices pid \<noteq> None"
  shows "\<exists>row. order_row (Suc 0) customer_ids product_ids product_prices i example_rng =
           Inr (row, example_rng)"
proof -
  let ?g = "example_rng"
  have stl: "stl ?g = ?g" by (rule stl_example_rng)
  obtain cid where cid: "pareto_choice customer_ids (12 / 10) ?g = Inr (cid, ?g)"
    using pareto_choice_Inr [OF assms(1), of "12 / 10" ?g] by (auto simp only: stl)
  obtain pid where pid: "random_choice product_ids ?g = Inr (pid, ?g)" "pid \<in> set product_ids"
    using random_choice_Inr [OF assms(2), of ?g] by (auto simp only: stl)
  obtain quantity where q: "random_choices [1, 2, 3, 4, 5 :: int] [50, 25, 15, 7, 3] ?g = Inr (quantity, ?g)"
    using random_choices_Inr [of "[50, 25, 15, 7, 3]" "[1, 2, 3, 4, 5 :: int]" ?g]
    by (auto simp: stl)
  obtain pm where pm: "random_choices PAYMENT_METHODS PAYMENT_WEIGHTS ?g = Inr (pm, ?g)"
    using random_choices_Inr [of PAYMENT_WEIGHTS PAYMENT_METHODS ?g]
    by (auto simp: PAYMENT_METHODS_def PAYMENT_WEIGHTS_def stl)
  from assms(3) pid(2) obtain unit_price where up: "product_prices pid = Some unit_price" by auto
  have r: "snd (random_random ?g) = ?g" by (simp add: random_random_def stl)
  obtain u where u: "random_random ?g = (u, ?g)" using r by (cases "random_random ?g") auto
  show ?thesis
    unfolding order_row_def
    by (simp only: cid pid(1) seasonal_date_example q pm up u sum.case prod.case option.case
          Let_def) blast
qed

lemma orders_loop_sconst:
  assumes "customer_ids \<noteq> []" "product_ids \<noteq> []"
    "\<forall>pid \<in> set product_ids. product_prices pid \<noteq> None"
  shows "\<exists>rows'. orders_loop (Suc 0) customer_ids product_ids product_prices ids rows
            example_rng = Inr (rows', example_rng)"
proof (induction ids arbitrary: rows)
  case Nil
  then show ?case by simp
next
  case (Cons i ids)
  obtain row where row: "order_row (Suc 0) customer_ids product_ids product_prices i
      example_rng = Inr (row, example_rng)"
    using order_row_sconst [OF assms] by blast
  from Cons.IH [of "rows @ [row]"] row show ?case by (simp del: order_row_def)
qed

lemma generate_orders_sconst:
  assumes "customers \<noteq> []" "products \<noteq> []" "8155 \<le> NUM_ORDERS cfg"
  shows "\<exists>rows g'. generate_orders (Suc 0) cfg customers products example_rng =
           Inr (rows, g')"
proof (cases "generate_orders (Suc 0) cfg customers products example_rng")
  case (Inr r)
  then show ?thesis by (cases r) auto
next
  case (Inl e)
  let ?cids = "map c_customer_id customers" and ?pids = "map p_product_id products"
    and ?prices = "product_prices_of products"
  let ?g = "example_rng"
  have ne: "?cids \<noteq> []" "?pids \<noteq> []" using assms(1,2) by simp_all
  have defined: "\<forall>pid \<in> set ?pids. ?prices pid \<noteq> None"
    using product_prices_of_defined by blast
  obtain dt where dt: "random_randint 8050 8150 ?g = Inr (dt, ?g)" "8050 \<le> dt" "dt \<le> 8150"
    using random_randint_Inr [of 8050 8150 ?g] by (auto simp: stl_example_rng)
  obtain base where base: "orders_loop (Suc 0) ?cids ?pids ?prices [1..NUM_ORDERS cfg] [] ?g =
      Inr (base, ?g)"
    using orders_loop_sconst [OF ne defined] by blast
  from orders_loop_facts [OF base]
  have "map o_order_id base = [1..NUM_ORDERS cfg]" by simp
  then have "length base = length [1..NUM_ORDERS cfg]" by (metis length_map)
  with assms(3) have len: "8155 \<le> int (length base)" by simp
  have "\<forall>off \<in> set [0..4]. 0 \<le> off \<and> dt + off < int (length base)"
    using dt(3) len by auto
  from duplicate_loop_returns [OF _ this] dt(2)
  obtain rows' where "duplicate_loop dt [0..4] base = Inr rows'" by auto
  with dt(1) base Inl show ?thesis by (simp add: generate_orders_def)
qed

lemma good_product_price: "good_product p \<Longrightarrow> 0 < p_list_price p"
  by (simp add: good_product_def)



subsection \<open>Row counts\<close>

text \<open>
  Claim C3. Every list that \<open>generate_orders\<close> returns has exactly \<open>NUM_ORDERS + 5\<close> rows,
  with the default \<open>NUM_ORDERS = 10000\<close> exactly 10005 rows; with the default
  configuration and at least one customer and one product, \<open>generate_orders\<close> returns
  unless the recursion of \<open>seasonal_date\<close> exceeds the recursion limit. With the default
  \<open>NUM_CUSTOMERS = 2000\<close>, \<open>generate_customers\<close> returns exactly 2000 rows.
\<close>

theorem generate_orders_count:
  "(\<forall>rows g'. generate_orders depth cfg customers products g = Inr (rows, g') \<longrightarrow>
      int (length rows) = NUM_ORDERS cfg + 5) \<and>
   (\<forall>rows g'. generate_orders depth default_config customers products g = Inr (rows, g') \<longrightarrow>
      length rows = 10005) \<and>
   (customers \<noteq> [] \<and> products \<noteq> [] \<and>
    generate_orders depth default_config customers products g \<noteq> Inl RecursionError \<longrightarrow>
      (\<exists>rows g'. generate_orders depth default_config customers products g = Inr (rows, g') \<and>
         length rows = 10005)) \<and>
   (\<exists>rows g'. generate_customers md5_hexdigest default_config g = Inr (rows, g') \<and>
      length rows = 2000)"
proof (intro conjI allI impI)
  fix rows g' assume "generate_orders depth cfg customers products g = Inr (rows, g')"
  then show "int (length rows) = NUM_ORDERS cfg + 5" using generate_orders_length by blast
next
  fix rows g' assume "generate_orders depth default_config customers products g = Inr (rows, g')"
  from generate_orders_length [OF this] show "length rows = 10005"
    by (simp add: default_config_def)
next
  assume a: "customers \<noteq> [] \<and> products \<noteq> [] \<and>
    generate_orders depth default_config customers products g \<noteq> Inl RecursionError"
  have n: "8155 \<le> NUM_ORDERS default_config" by (simp add: default_config_def)
  show "\<exists>rows g'. generate_orders depth default_config customers products g = Inr (rows, g') \<and>
         length rows = 10005"
  proof (cases "generate_orders depth default_config customers products g")
    case (Inl e)
    with generate_orders_error [OF _ _ n Inl] a show ?thesis by simp
  next
    case (Inr r)
    obtain rows g' where r: "r = (rows, g')" by (cases r)
    from generate_orders_length [OF Inr [unfolded r]] have "length rows = 10005"
      by (simp add: default_config_def)
    with Inr r show ?thesis by simp
  qed
next
  from generate_customers_Inr [of md5_hexdigest default_config g] obtain rows g'
    where r: "generate_customers md5_hexdigest default_config g = Inr (rows, g')"
      "map c_customer_id rows = [1..NUM_CUSTOMERS default_config]" by blast
  from r(2) have "length rows = length [1..NUM_CUSTOMERS default_config]" by (metis length_map)
  then have "length rows = 2000" by (simp add: default_config_def)
  with r(1) show "\<exists>rows g'. generate_customers md5_hexdigest default_config g = Inr (rows, g') \<and>
      length rows = 2000" by blast
qed

theorem generate_orders_count_witness:
  "[example_customer] \<noteq> [] \<and> [example_product] \<noteq> [] \<and>
   generate_orders (Suc 0) default_config [example_customer] [example_product] example_rng \<noteq>
     Inl RecursionError \<and>
   (\<exists>rows g'.
      generate_orders (Suc 0) default_config [example_customer] [example_product] example_rng =
        Inr (rows, g') \<and>
      length rows = 10005 \<and> int (length rows) = NUM_ORDERS default_config + 5) \<and>
   (\<exists>rows g'. generate_customers (\<lambda>s. s) default_config example_rng = Inr (rows, g') \<and>
      length rows = 2000)"
proof -
  have n: "8155 \<le> NUM_ORDERS default_config" by (simp add: default_config_def)
  obtain rows g'
    where r: "generate_orders (Suc 0) default_config [example_customer] [example_product]
        example_rng = Inr (rows, g')"
    using generate_orders_sconst [OF _ _ n, of "[example_customer]" "[example_product]"] by auto
  note count = generate_orders_count [of "Suc 0" default_config "[example_customer]"
      "[example_product]" example_rng "\<lambda>s. s"]
  from count r have "length rows = 10005" "int (length rows) = NUM_ORDERS default_config + 5"
    by blast+
  with r count show ?thesis by auto
qed

subsection \<open>Duplicate order ids\<close>

text \<open>
  Claim C2. In every list that \<open>generate_orders\<close> returns, the number of rows minus the
  number of distinct \<open>order_id\<close>s is exactly 5: the first \<open>NUM_ORDERS\<close> rows carry the
  \<open>order_id\<close>s \<open>1, ..., NUM_ORDERS\<close>, and the 5 rows after them are the rows at the
  indices \<open>duplicate_target, ..., duplicate_target + 4\<close>, with \<open>duplicate_target\<close> drawn
  from \<open>[8050, 8150]\<close>, so that they repeat 5 \<open>order_id\<close>s and bring no new one. When
  \<open>duplicate_target + 5 <= NUM_ORDERS\<close>, as with the default configuration, the copied
  rows are among the first \<open>NUM_ORDERS\<close>.
\<close>

theorem generate_orders_duplicates:
  assumes "generate_orders depth cfg customers products g = Inr (rows, g')"
  shows "int (length rows) - int (card (set (map o_order_id rows))) = 5 \<and>
     map o_order_id (take (nat (NUM_ORDERS cfg)) rows) = [1..NUM_ORDERS cfg] \<and>
     length (drop (nat (NUM_ORDERS cfg)) rows) = 5 \<and>
     set (map o_order_id (drop (nat (NUM_ORDERS cfg)) rows)) \<subseteq>
       set (map o_order_id (take (nat (NUM_ORDERS cfg)) rows)) \<and>
     (\<exists>duplicate_target g1.
        random_randint 8050 8150 g = Inr (duplicate_target, g1) \<and>
        8050 \<le> duplicate_target \<and> duplicate_target \<le> 8150 \<and>
        drop (nat (NUM_ORDERS cfg)) rows = take 5 (drop (nat duplicate_target) rows) \<and>
        (duplicate_target + 5 \<le> NUM_ORDERS cfg \<longrightarrow>
           drop (nat (NUM_ORDERS cfg)) rows =
           take 5 (drop (nat duplicate_target) (take (nat (NUM_ORDERS cfg)) rows))))"
proof -
  let ?n = "NUM_ORDERS cfg"
  from generate_orders_facts [OF assms] obtain dt g1 base new
    where f: "random_randint 8050 8150 g = Inr (dt, g1)" "8050 \<le> dt" "dt \<le> 8150"
      "dt < int (length base)" "rows = base @ new" "map o_order_id base = [1..?n]"
      "length new = 5" "set new \<subseteq> set base" "\<forall>k < 5. new ! k = rows ! (nat dt + k)"
    by blast
  from generate_orders_length [OF assms] have n: "1 \<le> ?n" by simp
  from f(6) have "length base = length [1..?n]" by (metis length_map)
  with n have lb: "length base = nat ?n" by simp
  have tk: "take (nat ?n) rows = base" and dr: "drop (nat ?n) rows = new"
    using f(5) lb by simp_all
  have "set (map o_order_id rows) = set (map o_order_id base)" using f(5,8) by auto
  also have "\<dots> = {1..?n}" using f(6) by simp
  finally have "card (set (map o_order_id rows)) = nat ?n" by simp
  with f(5,7) lb n have count: "int (length rows) - int (card (set (map o_order_id rows))) = 5"
    by simp
  have sub: "set (map o_order_id new) \<subseteq> set (map o_order_id base)" using f(8) by auto
  have lr: "length rows = nat ?n + 5" using f(5,7) lb by simp
  have dtn: "nat dt < nat ?n" using f(2,4) lb by linarith
  have copy: "new = take 5 (drop (nat dt) rows)"
  proof (rule nth_equalityI)
    have "5 \<le> length rows - nat dt" using lr dtn by linarith
    then show "length new = length (take 5 (drop (nat dt) rows))" using f(7) by simp
  next
    fix k assume "k < length new"
    with f(7) have k: "k < 5" by simp
    with f(9) have "new ! k = rows ! (nat dt + k)" by blast
    moreover have "nat dt \<le> length rows" using lr dtn by linarith
    ultimately show "new ! k = take 5 (drop (nat dt) rows) ! k" using k by simp
  qed
  have copy2: "dt + 5 \<le> ?n \<longrightarrow> new = take 5 (drop (nat dt) base)"
  proof
    assume "dt + 5 \<le> ?n"
    with f(2) lb have "nat dt + 5 \<le> length base" by linarith
    then have "take 5 (drop (nat dt) (base @ new)) = take 5 (drop (nat dt) base)" by simp
    with copy f(5) show "new = take 5 (drop (nat dt) base)" by simp
  qed
  show ?thesis
    unfolding tk dr
    by (intro conjI count f(6) f(7) sub exI [of _ dt] exI [of _ g1] f(1) f(2) f(3) copy copy2)
qed

theorem generate_orders_duplicates_witness:
  "\<exists>rows g'.
     generate_orders (Suc 0) default_config [example_customer] [example_product] example_rng =
       Inr (rows, g') \<and>
     int (length rows) - int (card (set (map o_order_id rows))) = 5 \<and>
     map o_order_id (take 10000 rows) = [1..10000] \<and>
     length (drop 10000 rows) = 5"
proof -
  have n: "8155 \<le> NUM_ORDERS default_config" by (simp add: default_config_def)
  obtain rows g'
    where r: "generate_orders (Suc 0) default_config [example_customer] [example_product]
        example_rng = Inr (rows, g')"
    using generate_orders_sconst [OF _ _ n, of "[example_customer]" "[example_product]"] by auto
  from generate_orders_duplicates [OF r] r show ?thesis
    by (auto simp: default_config_def)
qed

subsection \<open>Positive totals\<close>



section \<open>The four generators together\<close>

subsection \<open>Runs on the example generator\<close>











lemma generate_tables_error:
  assumes "generate_tables depth md5_hexdigest default_config g = Inl e"
  shows "e = RecursionError"
proof -
  obtain customers g1
    where c: "generate_customers md5_hexdigest default_config g = Inr (customers, g1)"
      "map c_customer_id customers = [1..NUM_CUSTOMERS default_config]"
    using generate_customers_Inr by blast
  from c(2) have "length customers = length [1..NUM_CUSTOMERS default_config]"
    by (metis length_map)
  then have cne: "customers \<noteq> []" by (auto simp: default_config_def)
  from generate_products_Inr [of default_config g1] obtain products g2
    where p: "generate_products default_config g1 = Inr (products, g2)"
      "200 \<le> length products"
    by (auto simp: default_config_def)
  then have pne: "products \<noteq> []" by auto
  have n: "8155 \<le> NUM_ORDERS default_config" by (simp add: default_config_def)
  show ?thesis
  proof (cases "generate_orders depth default_config customers products g2")
    case (Inl e')
    with assms c(1) p(1) have "e' = e" by (simp add: generate_tables_def)
    with generate_orders_error [OF cne pne n Inl] show ?thesis by simp
  next
    case (Inr r)
    obtain orders g3 where r: "r = (orders, g3)" by (cases r)
    from cne have "map c_customer_id customers \<noteq> []" by simp
    from events_loop_returns [OF this] obtain events g4
      where ev: "generate_events default_config customers g3 = Inr (events, g4)"
      unfolding generate_events_def by blast
    with assms c(1) p(1) Inr r show ?thesis by (simp add: generate_tables_def)
  qed
qed

subsection \<open>Index errors\<close>

text \<open>
  Claim C6. Under the default configuration, generation never raises \<open>IndexError\<close>. The
  index \<open>int(paretovariate(alpha)) % len(items)\<close> of \<open>pareto_choice\<close> lies in
  \<open>[0, len(items))\<close> for every non-empty list, so that the call returns the item at that
  index; every \<open>duplicate_target + dup_offset\<close>, for \<open>duplicate_target\<close> drawn from
  \<open>[8050, 8150]\<close> and \<open>dup_offset\<close> in \<open>range(5)\<close>, is below the 10000 rows of the order
  list; the four generators of \<open>load_data\<close> in sequence do not end in \<open>IndexError\<close>, and
  neither does \<open>generate_orders\<close> on any non-empty customers and products.
\<close>

theorem generation_index_safe:
  "(items \<noteq> [] \<longrightarrow>
      (let idx = fst (random_paretovariate_int alpha g) mod int (length items) in
       0 \<le> idx \<and> idx < int (length items) \<and>
       pareto_choice items alpha g = Inr (items ! nat idx, stl g))) \<and>
   (\<forall>duplicate_target g1.
      random_randint 8050 8150 g = Inr (duplicate_target, g1) \<longrightarrow>
        8050 \<le> duplicate_target \<and> duplicate_target \<le> 8150 \<and>
        (\<forall>dup_offset \<in> set [0..4].
           0 \<le> duplicate_target + dup_offset \<and>
           duplicate_target + dup_offset < NUM_ORDERS default_config)) \<and>
   generate_tables depth md5_hexdigest default_config g \<noteq> Inl IndexError \<and>
   (customers \<noteq> [] \<and> products \<noteq> [] \<longrightarrow>
      generate_orders depth default_config customers products g \<noteq> Inl IndexError)"
proof (intro conjI allI impI)
  assume ne: "items \<noteq> []"
  let ?idx = "fst (random_paretovariate_int alpha g) mod int (length items)"
  from ne have i: "0 \<le> ?idx" "?idx < int (length items)" by simp_all
  then have "py_index items ?idx = Inr (items ! nat ?idx)" by (rule py_index_Inr)
  with ne have "pareto_choice items alpha g = Inr (items ! nat ?idx, stl g)"
    by (simp add: pareto_choice_def random_paretovariate_int_def)
  with i show "let idx = fst (random_paretovariate_int alpha g) mod int (length items) in
       0 \<le> idx \<and> idx < int (length items) \<and>
       pareto_choice items alpha g = Inr (items ! nat idx, stl g)"
    by (simp add: Let_def)
next
  fix duplicate_target g1
  assume "random_randint 8050 8150 g = Inr (duplicate_target, g1)"
  from random_randint_range [OF this]
  show "8050 \<le> duplicate_target" "duplicate_target \<le> 8150"
    "\<forall>dup_offset \<in> set [0..4].
           0 \<le> duplicate_target + dup_offset \<and>
           duplicate_target + dup_offset < NUM_ORDERS default_config"
    by (auto simp: default_config_def)
next
  show "generate_tables depth md5_hexdigest default_config g \<noteq> Inl IndexError"
    using generate_tables_error [of depth md5_hexdigest g IndexError] by auto
next
  assume "customers \<noteq> [] \<and> products \<noteq> []"
  moreover have "8155 \<le> NUM_ORDERS default_config" by (simp add: default_config_def)
  ultimately show "generate_orders depth default_config customers products g \<noteq> Inl IndexError"
    using generate_orders_error [of customers products default_config depth g IndexError]
    by auto
qed

theorem generation_index_safe_witness:
  "[7 :: int] \<noteq> [] \<and>
   pareto_choice [7 :: int] (12 / 10) example_rng = Inr (7, example_rng) \<and>
   generate_tables (Suc 0) example_md5 default_config example_rng \<noteq> Inl IndexError \<and>
   [example_customer] \<noteq> [] \<and> [example_product] \<noteq> [] \<and>
   generate_orders (Suc 0) default_config [example_customer] [example_product] example_rng \<noteq>
     Inl IndexError"
  using generation_index_safe [of "[7 :: int]" "12 / 10" example_rng "Suc 0" example_md5
      "[example_customer]" "[example_product]"]
  by (simp add: Let_def stl_example_rng)

subsection \<open>Determinism\<close>



section \<open>The connection in \<open>load_data\<close>\<close>









end
